theory Spec2Isabelle
  imports Main "HOL-Library.Word"
begin

section \<open>Scrolling capture: the capture loop and the stitcher of \<^verbatim>\<open>app/capture/scrolling.py\<close>\<close>

subsection \<open>Images\<close>

text \<open>
  A PIL image in mode RGB: its size and its pixel storage, one byte list per row, three
  bytes per pixel. \<^verbatim>\<open>tobytes()\<close> is the row-major concatenation of the rows.
  Every image PIL hands out satisfies \<open>wf_image\<close>.
\<close>

type_synonym byte = "8 word"

record image =
  width :: int
  height :: int
  rows :: "byte list list"

definition wf_image :: "image \<Rightarrow> bool" where
  "wf_image im \<longleftrightarrow>
     0 \<le> width im \<and> 0 \<le> height im \<and> length (rows im) = nat (height im) \<and>
     list_all (\<lambda>r. length r = nat (3 * width im)) (rows im)"

definition tobytes :: "image \<Rightarrow> byte list" where
  "tobytes im = concat (rows im)"

datatype error = IndexError | ValueError | CollaboratorError nat

text \<open>
  The three bytes of the pixel at column \<open>x\<close>, row \<open>y\<close>, which a well-formed image
  has for every position inside it; black outside the image, which is what \<^verbatim>\<open>crop\<close>
  fills in for the part of a box that lies outside.
\<close>

definition pixel_at :: "image \<Rightarrow> int \<Rightarrow> int \<Rightarrow> byte list" where
  "pixel_at im x y =
     (if 0 \<le> x \<and> x < width im \<and> 0 \<le> y \<and> y < height im
      then take 3 (drop (nat (3 * x)) (rows im ! nat y))
      else [0, 0, 0])"

text \<open>
  \<^verbatim>\<open>Image.crop((left, upper, right, lower))\<close>. Pillow refuses a box with
  \<open>right < left\<close> or \<open>lower < upper\<close>; neither call site of this module builds one
  from a well-formed image, so the model has no error branch here.
\<close>

definition crop :: "int \<times> int \<times> int \<times> int \<Rightarrow> image \<Rightarrow> image" where
  "crop box im =
     (case box of (l, u, r, b) \<Rightarrow>
        \<lparr>width = r - l, height = b - u,
         rows = map (\<lambda>y. concat (map (\<lambda>x. pixel_at im x y) [l..r - 1])) [u..b - 1]\<rparr>)"

text \<open>\<^verbatim>\<open>Image.new('RGB', (w, h))\<close>: a black image; a negative size is a ValueError.\<close>

definition new_image :: "int \<Rightarrow> int \<Rightarrow> error + image" where
  "new_image w h =
     (if w < 0 \<or> h < 0 then Inl ValueError
      else Inr \<lparr>width = w, height = h, rows = replicate (nat h) (replicate (nat (3 * w)) 0)\<rparr>)"

text \<open>
  \<^verbatim>\<open>dst.paste(src, (x0, y0))\<close>: the pixels of \<open>src\<close> overwrite the box of \<open>dst\<close>
  they cover, clipped to \<open>dst\<close>; the size of \<open>dst\<close> does not change.
\<close>

definition paste :: "image \<Rightarrow> image \<Rightarrow> int \<times> int \<Rightarrow> image" where
  "paste dst src pos =
     (case pos of (x0, y0) \<Rightarrow>
        dst\<lparr>rows :=
          map (\<lambda>y. concat (map (\<lambda>x.
                 if x0 \<le> x \<and> x < x0 + width src \<and> y0 \<le> y \<and> y < y0 + height src
                 then pixel_at src (x - x0) (y - y0)
                 else pixel_at dst x y) [0..width dst - 1])) [0..height dst - 1]\<rparr>)"

subsection \<open>The Overlap Locator\<close>

text \<open>Python's \<^verbatim>\<open>range(start, stop, step)\<close> for a positive step.\<close>

definition py_range :: "int \<Rightarrow> int \<Rightarrow> int \<Rightarrow> int list" where
  "py_range start stop step =
     map (\<lambda>k. start + step * int k) [0..<nat ((stop - start + step - 1) div step)]"

text \<open>\<^verbatim>\<open>np.sum(arr1 == arr2)\<close>: the number of positions at which the two buffers agree.\<close>

definition count_matching :: "byte list \<Rightarrow> byte list \<Rightarrow> int" where
  "count_matching xs ys = int (length (filter (\<lambda>(a, b). a = b) (zip xs ys)))"

text \<open>
  \<^verbatim>\<open>_images_match\<close> with its default threshold 0.95. The arrays have
  \<open>height * width * 3\<close> elements. The quotient \<open>matching / size\<close> is compared exactly:
  for the sizes that occur (at most 50 rows of 100 pixels) a quotient below 19/20 is below
  it by more than \<open>10\<^sup>-\<^sup>6\<close>, far more than the rounding of a double. For an empty array
  numpy yields \<open>nan\<close>, and \<open>nan >= 0.95\<close> is false.
\<close>

definition images_match :: "image \<Rightarrow> image \<Rightarrow> bool" where
  "images_match img1 img2 =
     (if (width img1, height img1) \<noteq> (width img2, height img2) then False
      else
        let matching = count_matching (tobytes img1) (tobytes img2);
            size = height img1 * width img1 * 3
        in size \<noteq> 0 \<and> 95 * size \<le> 100 * matching)"

text \<open>
  The two strips that one pass of the loop of \<^verbatim>\<open>_find_overlap\<close> compares for the
  candidate \<open>overlap\<close>, and the verdict on them.
\<close>

definition strips_match :: "image \<Rightarrow> image \<Rightarrow> int \<Rightarrow> int \<Rightarrow> int \<Rightarrow> int \<Rightarrow> bool" where
  "strips_match img1 img2 strip_height sample_x sample_width overlap =
     (let y1 = height img1 - overlap;
          strip1 = crop (sample_x - sample_width div 2, y1,
                         sample_x + sample_width div 2, y1 + strip_height) img1;
          strip2 = crop (sample_x - sample_width div 2, 0,
                         sample_x + sample_width div 2, strip_height) img2
      in images_match strip1 strip2)"

text \<open>The \<^verbatim>\<open>for overlap in range(...)\<close> loop: the first candidate that matches, else 0.\<close>

fun overlap_scan :: "image \<Rightarrow> image \<Rightarrow> int \<Rightarrow> int \<Rightarrow> int \<Rightarrow> int list \<Rightarrow> int" where
  "overlap_scan img1 img2 strip_height sample_x sample_width [] = 0"
| "overlap_scan img1 img2 strip_height sample_x sample_width (overlap # rest) =
     (if strips_match img1 img2 strip_height sample_x sample_width overlap then overlap
      else overlap_scan img1 img2 strip_height sample_x sample_width rest)"

definition find_overlap :: "image \<Rightarrow> image \<Rightarrow> int option \<Rightarrow> int" where
  "find_overlap img1 img2 max_overlap_arg =
     (let max_overlap = (case max_overlap_arg of
                           None \<Rightarrow> min (height img1) (height img2) div 2
                         | Some m \<Rightarrow> m);
          strip_height = 50;
          sample_x = width img1 div 2;
          sample_width = min 100 (width img1 div 4)
      in overlap_scan img1 img2 strip_height sample_x sample_width
           (py_range strip_height max_overlap 10))"

text \<open>The candidates and the verdict of \<^verbatim>\<open>_find_overlap\<close> as the Stitcher calls it.\<close>

definition candidates :: "image \<Rightarrow> image \<Rightarrow> int list" where
  "candidates img1 img2 = py_range 50 (min (height img1) (height img2) div 2) 10"

definition candidate_matches :: "image \<Rightarrow> image \<Rightarrow> int \<Rightarrow> bool" where
  "candidate_matches img1 img2 overlap =
     strips_match img1 img2 50 (width img1 div 2) (min 100 (width img1 div 4)) overlap"

subsection \<open>The Stitcher\<close>

text \<open>One pass of the first loop of \<^verbatim>\<open>_stitch_images\<close>: what frame \<open>curr\<close> contributes.\<close>

definition stitch_part :: "image \<Rightarrow> image \<Rightarrow> image" where
  "stitch_part prev_img curr_img =
     (let overlap = find_overlap prev_img curr_img None
      in if overlap > 0
         then crop (0, overlap, width curr_img, height curr_img) curr_img
         else curr_img)"

definition stitched_parts :: "image list \<Rightarrow> image list" where
  "stitched_parts images =
     images ! 0 # map (\<lambda>i. stitch_part (images ! (i - 1)) (images ! i)) [1..<length images]"

text \<open>The second loop: paste each part below the previous one.\<close>

fun paste_parts :: "image \<Rightarrow> int \<Rightarrow> image list \<Rightarrow> image" where
  "paste_parts result y_offset [] = result"
| "paste_parts result y_offset (img # imgs) =
     paste_parts (paste result img (0, y_offset)) (y_offset + height img) imgs"


text \<open>
  \<^verbatim>\<open>_stitch_images\<close> on the frame store. On an empty store \<^verbatim>\<open>self.images[0]\<close>
  raises IndexError.
\<close>

definition stitch_images :: "image list \<Rightarrow> error + image" where
  "stitch_images images =
     (if length images = 1 then Inr (images ! 0)
      else if images = [] then Inl IndexError
      else
        let parts = stitched_parts images;
            total_height = sum_list (map height parts);
            w = width (parts ! 0)
        in case new_image w total_height of
             Inl e \<Rightarrow> Inl e
           | Inr result \<Rightarrow> Inr (paste_parts result 0 parts))"

subsection \<open>The collaborators and the capturing object\<close>

text \<open>
  The outside world is a state \<open>'w\<close> that every call to a collaborator may read and
  change; a call returns normally or raises. \<^verbatim>\<open>grab\<close> stands for
  \<^verbatim>\<open>sct.grab(region)\<close> followed by \<^verbatim>\<open>Image.frombytes\<close>, \<^verbatim>\<open>keybd_event\<close>
  for \<^verbatim>\<open>user32.keybd_event\<close>, \<^verbatim>\<open>hash_bytes\<close> for Python's \<^verbatim>\<open>hash\<close> on
  bytes. The settle delays (\<^verbatim>\<open>time.sleep\<close>) have no effect on the values computed and
  are left out, and so is the creation of the \<^verbatim>\<open>mss\<close> context, which is taken to succeed.
\<close>

type_synonym rect = "int \<times> int \<times> int \<times> int"

type_synonym ('a, 'w) call = "'w \<Rightarrow> (error + 'a) \<times> 'w"

record 'w collaborators =
  bring_window_to_front :: "int \<Rightarrow> (unit, 'w) call"
  get_window_rect :: "int \<Rightarrow> (rect, 'w) call"
  grab :: "rect \<Rightarrow> (image, 'w) call"
  keybd_event :: "int \<Rightarrow> int \<Rightarrow> int \<Rightarrow> int \<Rightarrow> (unit, 'w) call"
  hash_bytes :: "byte list \<Rightarrow> int"

record scrolling_capture =
  hwnd :: int
  images :: "image list"
  scroll_amount :: int

text \<open>\<^verbatim>\<open>ScrollingCapture.__init__\<close>\<close>

definition init :: "int \<Rightarrow> scrolling_capture" where
  "init h = \<lparr>hwnd = h, images = [], scroll_amount = 100\<rparr>"

text \<open>Two calls in sequence: the second runs only if the first returns normally.\<close>

definition and_then :: "(unit, 'w) call \<Rightarrow> (unit, 'w) call \<Rightarrow> (unit, 'w) call" where
  "and_then f g w = (case f w of (Inl e, w1) \<Rightarrow> (Inl e, w1) | (Inr _, w1) \<Rightarrow> g w1)"

definition scroll_to_top :: "'w collaborators \<Rightarrow> (unit, 'w) call" where
  "scroll_to_top env =
     and_then (keybd_event env 0x11 0 0 0)
    (and_then (keybd_event env 0x24 0 0 0)
    (and_then (keybd_event env 0x24 0 2 0)
              (keybd_event env 0x11 0 2 0)))"

definition scroll_down :: "'w collaborators \<Rightarrow> (unit, 'w) call" where
  "scroll_down env = and_then (keybd_event env 0x22 0 0 0) (keybd_event env 0x22 0 2 0)"

subsection \<open>The capture loop\<close>

text \<open>
  The \<^verbatim>\<open>while scroll_count < max_scrolls\<close> loop of \<^verbatim>\<open>capture\<close>. \<open>region\<close> is built
  from the variables \<^verbatim>\<open>left, top, width, height\<close>, which are assigned once, before
  the loop. The result is how the loop ended (normally, by exhaustion or \<^verbatim>\<open>break\<close>,
  or with an exception), the object and the world.
\<close>

function capture_loop ::
  "'w collaborators \<Rightarrow> rect \<Rightarrow> int \<Rightarrow> int \<Rightarrow> int option \<Rightarrow> scrolling_capture \<Rightarrow> 'w
     \<Rightarrow> (error + unit) \<times> scrolling_capture \<times> 'w" where
  "capture_loop env region max_scrolls scroll_count previous_hash self w =
     (if scroll_count < max_scrolls then
        (case grab env region w of
           (Inl e, w1) \<Rightarrow> (Inl e, self, w1)
         | (Inr img, w1) \<Rightarrow>
             let current_hash = hash_bytes env (take 10000 (tobytes img))
             in if Some current_hash = previous_hash then (Inr (), self, w1)
                else
                  let self1 = self\<lparr>images := images self @ [img]\<rparr>
                  in (case scroll_down env w1 of
                        (Inl e, w2) \<Rightarrow> (Inl e, self1, w2)
                      | (Inr _, w2) \<Rightarrow>
                          capture_loop env region max_scrolls (scroll_count + 1)
                            (Some current_hash) self1 w2))
      else (Inr (), self, w))"
  by pat_completeness auto
termination
  by (relation "measure (\<lambda>(env, region, max_scrolls, scroll_count, previous_hash, self, w).
                  nat (max_scrolls - scroll_count))") auto

declare capture_loop.simps [simp del]

text \<open>\<^verbatim>\<open>ScrollingCapture.capture\<close>\<close>

definition capture ::
  "'w collaborators \<Rightarrow> int \<Rightarrow> scrolling_capture \<Rightarrow> 'w
     \<Rightarrow> (error + image option) \<times> scrolling_capture \<times> 'w" where
  "capture env max_scrolls self w =
     (case bring_window_to_front env (hwnd self) w of
        (Inl e, w1) \<Rightarrow> (Inl e, self, w1)
      | (Inr _, w1) \<Rightarrow>
     (case get_window_rect env (hwnd self) w1 of
        (Inl e, w2) \<Rightarrow> (Inl e, self, w2)
      | (Inr region, w2) \<Rightarrow>
     (case scroll_to_top env w2 of
        (Inl e, w3) \<Rightarrow> (Inl e, self, w3)
      | (Inr _, w3) \<Rightarrow>
     (case capture_loop env region max_scrolls 0 None self w3 of
        (Inl e, self1, w4) \<Rightarrow> (Inl e, self1, w4)
      | (Inr _, self1, w4) \<Rightarrow>
          if images self1 = [] then (Inr None, self1, w4)
          else (case stitch_images (images self1) of
                  Inl e \<Rightarrow> (Inl e, self1, w4)
                | Inr result \<Rightarrow> (Inr (Some result), self1, w4))))))"

section \<open>Observing a run\<close>

text \<open>
  To state what a run of \<^verbatim>\<open>capture\<close> asks of its collaborators, \<open>recording env\<close>
  behaves as \<open>env\<close> does and keeps, next to the world, the list of the calls made so
  far, each with the result it gave.
\<close>

datatype event =
    Activated int "error + unit"
  | RectQueried int "error + rect"
  | Grabbed rect "error + image"
  | KeySent int int int int "error + unit"

fun raised :: "event \<Rightarrow> error option" where
  "raised (Activated h r) = (case r of Inl e \<Rightarrow> Some e | Inr _ \<Rightarrow> None)"
| "raised (RectQueried h r) = (case r of Inl e \<Rightarrow> Some e | Inr _ \<Rightarrow> None)"
| "raised (Grabbed region r) = (case r of Inl e \<Rightarrow> Some e | Inr _ \<Rightarrow> None)"
| "raised (KeySent vk scan flags extra r) = (case r of Inl e \<Rightarrow> Some e | Inr _ \<Rightarrow> None)"

fun is_rect_query :: "event \<Rightarrow> bool" where
  "is_rect_query (RectQueried h r) = True"
| "is_rect_query ev = False"

text \<open>The frames the screenshot provider has returned, in the order of the calls.\<close>

fun grabbed_frames :: "event list \<Rightarrow> image list" where
  "grabbed_frames [] = []"
| "grabbed_frames (Grabbed region (Inr img) # evs) = img # grabbed_frames evs"
| "grabbed_frames (ev # evs) = grabbed_frames evs"

definition logged :: "((error + 'a) \<Rightarrow> event) \<Rightarrow> ('a, 'w) call \<Rightarrow> ('a, 'w \<times> event list) call" where
  "logged ev f wl = (case f (fst wl) of (res, w1) \<Rightarrow> (res, (w1, snd wl @ [ev res])))"

definition recording :: "'w collaborators \<Rightarrow> ('w \<times> event list) collaborators" where
  "recording env =
     \<lparr>bring_window_to_front = (\<lambda>h. logged (Activated h) (bring_window_to_front env h)),
      get_window_rect = (\<lambda>h. logged (RectQueried h) (get_window_rect env h)),
      grab = (\<lambda>region. logged (Grabbed region) (grab env region)),
      keybd_event = (\<lambda>vk scan flags extra.
                       logged (KeySent vk scan flags extra) (keybd_event env vk scan flags extra)),
      hash_bytes = hash_bytes env\<rparr>"

text \<open>
  \<open>traced P f g\<close>: \<open>g\<close> does what \<open>f\<close> does and appends events to the log, all of them
  satisfying \<open>P\<close>, and an event records an exception only if the call ends with it.
\<close>

definition traced :: "(event \<Rightarrow> bool) \<Rightarrow> ('a, 'w) call \<Rightarrow> ('a, 'w \<times> event list) call \<Rightarrow> bool" where
  "traced P f g \<longleftrightarrow>
     (\<forall>w log. \<exists>ext. g (w, log) = (fst (f w), (snd (f w), log @ ext))
        \<and> (\<forall>ev \<in> set ext. P ev)
        \<and> (\<forall>ev \<in> set ext. \<forall>e. raised ev = Some e \<longrightarrow> fst (f w) = Inl e))"

fun is_key :: "event \<Rightarrow> bool" where
  "is_key (KeySent vk scan flags extra r) = True"
| "is_key ev = False"

fun loop_event :: "rect \<Rightarrow> event \<Rightarrow> bool" where
  "loop_event region (Grabbed r res) = (r = region)"
| "loop_event region (KeySent vk scan flags extra r) = True"
| "loop_event region ev = False"


subsection \<open>Runs that differ past the fingerprinted prefix\<close>

text \<open>
  Two images agree on the prefix the fingerprint is computed from; two sets of
  collaborators, on worlds related by \<open>R\<close>, raise alike, use the same hash and yield
  images that agree on that prefix, and keep the worlds related.
\<close>

definition prefix_equal :: "image \<Rightarrow> image \<Rightarrow> bool" where
  "prefix_equal a b \<longleftrightarrow> take 10000 (tobytes a) = take 10000 (tobytes b)"

definition agree_on_prefix :: "('a \<Rightarrow> 'b \<Rightarrow> bool) \<Rightarrow> 'a collaborators \<Rightarrow> 'b collaborators \<Rightarrow> bool" where
  "agree_on_prefix R env1 env2 \<longleftrightarrow>
     hash_bytes env1 = hash_bytes env2 \<and>
     (\<forall>region w1 w2. R w1 w2 \<longrightarrow>
        R (snd (grab env1 region w1)) (snd (grab env2 region w2)) \<and>
        (case (fst (grab env1 region w1), fst (grab env2 region w2)) of
           (Inr a, Inr b) \<Rightarrow> prefix_equal a b
         | (Inl e1, Inl e2) \<Rightarrow> e1 = e2
         | _ \<Rightarrow> False)) \<and>
     (\<forall>vk scan flags extra w1 w2. R w1 w2 \<longrightarrow>
        R (snd (keybd_event env1 vk scan flags extra w1)) (snd (keybd_event env2 vk scan flags extra w2)) \<and>
        fst (keybd_event env1 vk scan flags extra w1) = fst (keybd_event env2 vk scan flags extra w2))"

section \<open>Fixtures\<close>

text \<open>An image of one colour, all three channels \<open>v\<close>.\<close>

definition solid :: "int \<Rightarrow> int \<Rightarrow> byte \<Rightarrow> image" where
  "solid w h v = \<lparr>width = w, height = h, rows = replicate (nat h) (replicate (nat (3 * w)) v)\<rparr>"

text \<open>
  A simulated scrollable window. The world is the scroll position; \<open>shown pos\<close> is what
  the screenshot provider yields at that position and \<open>rect_at pos\<close> where the window
  is; Ctrl+Home (key 0x24 down) goes back to the top and Page Down (key 0x22 down) scrolls
  one page. \<open>head_hash\<close> is a stand-in for Python's \<^verbatim>\<open>hash\<close>.
\<close>

definition head_hash :: "byte list \<Rightarrow> int" where
  "head_hash bs = (case bs of [] \<Rightarrow> 0 | b # _ \<Rightarrow> 1 + uint b)"

definition scroller ::
  "(nat \<Rightarrow> error + image) \<Rightarrow> (nat \<Rightarrow> rect) \<Rightarrow> (byte list \<Rightarrow> int) \<Rightarrow> nat collaborators" where
  "scroller shown rect_at h =
     \<lparr>bring_window_to_front = (\<lambda>hw pos. (Inr (), pos)),
      get_window_rect = (\<lambda>hw pos. (Inr (rect_at pos), pos)),
      grab = (\<lambda>region pos. (shown pos, pos)),
      keybd_event = (\<lambda>vk scan flags extra pos.
                       (Inr (), if flags = 0 \<and> vk = 0x24 then 0
                                else if flags = 0 \<and> vk = 0x22 then pos + 1
                                else pos)),
      hash_bytes = h\<rparr>"

definition two_pages :: "nat \<Rightarrow> error + image" where
  "two_pages pos = Inr (solid 1 1 (if pos = 0 then 10 else 20))"

definition closes_after_first :: "nat \<Rightarrow> error + image" where
  "closes_after_first pos = (if pos = 0 then Inr (solid 1 1 10) else Inl (CollaboratorError 1))"

definition fixed_rect :: "nat \<Rightarrow> rect" where
  "fixed_rect pos = (0, 0, 1, 1)"

definition moving_rect :: "nat \<Rightarrow> rect" where
  "moving_rect pos = (10 * int pos, 0, 1, 1)"

text \<open>
  A 100 by 40 image, 12000 bytes: the first 39 rows hold the byte \<open>v\<close>, the last row
  the byte \<open>t\<close>, which lies past the first 10000 bytes.
\<close>

definition tailed :: "byte \<Rightarrow> byte \<Rightarrow> image" where
  "tailed v t = \<lparr>width = 100, height = 40,
                 rows = replicate 39 (replicate 300 v) @ [replicate 300 t]\<rparr>"

definition tailed_pages :: "byte \<Rightarrow> nat \<Rightarrow> error + image" where
  "tailed_pages t pos = Inr (tailed (if pos = 0 then 10 else 20) t)"

definition same_page_new_tail :: "nat \<Rightarrow> error + image" where
  "same_page_new_tail pos = Inr (tailed 10 (if pos = 0 then 1 else 2))"

text \<open>
  A long document whose row \<open>r\<close> is filled with the byte \<open>r mod 256\<close>, seen through
  a window of 100 by 300 pixels: \<open>page first_row\<close> is the frame that shows the rows from
  \<open>first_row\<close> on. \<open>scrolled_by step\<close> shows \<open>page 0\<close> at the top and \<open>page step\<close>
  after any number of scrolls: one Page Down moves the content up by \<open>step\<close> rows and
  reaches the end of the document.
\<close>

definition page :: "nat \<Rightarrow> image" where
  "page first_row = \<lparr>width = 100, height = 300,
               rows = map (\<lambda>y. replicate 300 (of_nat (first_row + y))) [0..<300]\<rparr>"

definition scrolled_by :: "nat \<Rightarrow> nat \<Rightarrow> error + image" where
  "scrolled_by step pos = Inr (page (if pos = 0 then 0 else step))"

definition window_rect :: "nat \<Rightarrow> rect" where
  "window_rect pos = (0, 0, 100, 300)"

section \<open>Properties\<close>

subsection \<open>Fixture facts\<close>

lemma wf_solid: "0 \<le> w \<Longrightarrow> 0 \<le> h \<Longrightarrow> wf_image (solid w h v)"
  by (simp add: wf_image_def solid_def list_all_iff)


subsection \<open>The Overlap Locator\<close>

lemma range10_bound: "k < nat ((stop - start + 10 - 1) div 10) \<longleftrightarrow> start + 10 * int k < stop"
proof -
  have "k < nat ((stop - start + 10 - 1) div 10) \<longleftrightarrow> int k < (stop - start + 10 - 1) div 10"
    by (rule zless_nat_eq_int_zless)
  also have "\<dots> \<longleftrightarrow> start + 10 * int k < stop" by linarith
  finally show ?thesis .
qed

lemma py_range10_set:
  "set (py_range start stop 10) = {c. \<exists>k. c = start + 10 * int k \<and> c < stop}"
  unfolding py_range_def by (auto simp: range10_bound)

lemma py_range10_nth:
  "i < length (py_range start stop 10) \<Longrightarrow> py_range start stop 10 ! i = start + 10 * int i"
  by (simp add: py_range_def)

lemma overlap_scan_find:
  "overlap_scan a b sh sx sw cs =
     (case find (strips_match a b sh sx sw) cs of None \<Rightarrow> 0 | Some c \<Rightarrow> c)"
  by (induction cs) auto

lemma find_overlap_find:
  "find_overlap a b None =
     (case find (candidate_matches a b) (candidates a b) of None \<Rightarrow> 0 | Some c \<Rightarrow> c)"
proof -
  have "candidate_matches a b = strips_match a b 50 (width a div 2) (min 100 (width a div 4))"
    by (rule ext) (simp add: candidate_matches_def)
  then show ?thesis
    by (simp add: find_overlap_def candidates_def overlap_scan_find)
qed

lemma find_overlap_cases:
  "(find_overlap a b None = 0 \<and> (\<forall>c \<in> set (candidates a b). \<not> candidate_matches a b c))
   \<or> (find_overlap a b None \<in> set (candidates a b)
      \<and> candidate_matches a b (find_overlap a b None)
      \<and> (\<forall>c \<in> set (candidates a b). c < find_overlap a b None \<longrightarrow> \<not> candidate_matches a b c))"
proof (cases "find (candidate_matches a b) (candidates a b)")
  case None
  then have "\<forall>c \<in> set (candidates a b). \<not> candidate_matches a b c"
    by (simp add: find_None_iff)
  then show ?thesis using None by (simp add: find_overlap_find)
next
  case (Some r)
  then obtain i where i: "i < length (candidates a b)" "candidate_matches a b (candidates a b ! i)"
    "r = candidates a b ! i" "\<forall>j<i. \<not> candidate_matches a b (candidates a b ! j)"
    by (auto simp: find_Some_iff)
  have r: "find_overlap a b None = r" using Some by (simp add: find_overlap_find)
  have "\<not> candidate_matches a b c" if "c \<in> set (candidates a b)" "c < r" for c
  proof -
    from that obtain j where j: "j < length (candidates a b)" "c = candidates a b ! j"
      by (auto simp: in_set_conv_nth)
    have "c = 50 + 10 * int j" using j unfolding candidates_def by (simp add: py_range10_nth)
    moreover have "r = 50 + 10 * int i" using i unfolding candidates_def by (simp add: py_range10_nth)
    ultimately have "j < i" using that by simp
    then show ?thesis using i j by simp
  qed
  then show ?thesis using i r by auto
qed

lemma candidates_set:
  "set (candidates a b) = {c. \<exists>k. c = 50 + 10 * int k \<and> c < min (height a) (height b) div 2}"
  by (simp add: candidates_def py_range10_set)

lemma find_overlap_nonneg: "0 \<le> find_overlap a b None"
  using find_overlap_cases [of a b] by (auto simp: candidates_set)

lemma find_overlap_less: "find_overlap a b None = 0 \<or> find_overlap a b None < min (height a) (height b) div 2"
  using find_overlap_cases [of a b] by (auto simp: candidates_set)

lemma find_overlap_short:
  "min (height a) (height b) \<le> 101 \<Longrightarrow> find_overlap a b None = 0"
proof -
  assume "min (height a) (height b) \<le> 101"
  then have "min (height a) (height b) div 2 \<le> 50" by linarith
  then have "candidates a b = []" by (simp add: candidates_def py_range_def)
  then show ?thesis by (simp add: find_overlap_find)
qed

lemma find_overlap_solid_found: "find_overlap (solid 8 102 0) (solid 8 102 0) None = 50"
  by code_simp

text \<open>
  C5, as amended. \<^verbatim>\<open>_find_overlap\<close>, called as the Stitcher calls it, either returns 0,
  and then no candidate matched and the Stitcher takes all of the second frame as new
  content, or returns an offset \<open>o\<close> with \<open>50 \<le> o < min(height_prev, height_next) div 2\<close>
  of the form \<open>50 + 10k\<close> that is the smallest candidate whose sampled strips meet the
  0.95 threshold. The candidates are exactly the numbers \<open>50 + 10k\<close> below
  \<open>min(height_prev, height_next) div 2\<close>. The returned value lies in
  \<open>[0, min(height_prev, height_next) div 2)\<close> whenever the smaller height is at least 2;
  below that the range is empty and the value is 0.
\<close>

theorem find_overlap_result:
  "(find_overlap img1 img2 None = 0
      \<and> (\<forall>c \<in> set (candidates img1 img2). \<not> candidate_matches img1 img2 c)
      \<and> stitch_part img1 img2 = img2
    \<or> 50 \<le> find_overlap img1 img2 None
      \<and> find_overlap img1 img2 None < min (height img1) (height img2) div 2
      \<and> (\<exists>k. find_overlap img1 img2 None = 50 + 10 * int k)
      \<and> candidate_matches img1 img2 (find_overlap img1 img2 None)
      \<and> (\<forall>c \<in> set (candidates img1 img2).
            c < find_overlap img1 img2 None \<longrightarrow> \<not> candidate_matches img1 img2 c))
   \<and> set (candidates img1 img2) =
       {c. \<exists>k. c = 50 + 10 * int k \<and> c < min (height img1) (height img2) div 2}
   \<and> (2 \<le> min (height img1) (height img2) \<longrightarrow>
        0 \<le> find_overlap img1 img2 None
        \<and> find_overlap img1 img2 None < min (height img1) (height img2) div 2)"
proof -
  have "2 \<le> min (height img1) (height img2) \<Longrightarrow> 0 < min (height img1) (height img2) div 2"
    by linarith
  moreover have "find_overlap img1 img2 None = 0 \<Longrightarrow> stitch_part img1 img2 = img2"
    by (simp add: stitch_part_def)
  ultimately show ?thesis
    using find_overlap_cases [of img1 img2] find_overlap_nonneg [of img1 img2]
      find_overlap_less [of img1 img2] candidates_set [of img1 img2]
    by auto
qed

text \<open>
  The range \<open>[0, min(height_prev, height_next) div 2)\<close> of the claim as it was stated is
  empty for two frames of height 1, and \<^verbatim>\<open>_find_overlap\<close> returns 0 there.
\<close>

theorem find_overlap_range_counterexample:
  "find_overlap (solid 8 1 0) (solid 8 1 0) None = 0
   \<and> \<not> (0 \<le> find_overlap (solid 8 1 0) (solid 8 1 0) None
        \<and> find_overlap (solid 8 1 0) (solid 8 1 0) None
            < min (height (solid 8 1 0)) (height (solid 8 1 0)) div 2)"
proof -
  have "min (height (solid 8 1 0)) (height (solid 8 1 0)) = 1" by (simp add: solid_def)
  then show ?thesis by (simp add: find_overlap_short)
qed

subsection \<open>The Stitcher\<close>

lemma height_paste [simp]: "height (paste dst src pos) = height dst"
  by (simp add: paste_def split: prod.splits)

lemma width_paste [simp]: "width (paste dst src pos) = width dst"
  by (simp add: paste_def split: prod.splits)

lemma height_paste_parts [simp]: "height (paste_parts result y parts) = height result"
  by (induction parts arbitrary: result y) auto

lemma height_stitch_part:
  "height (stitch_part prev_img curr_img) = height curr_img - find_overlap prev_img curr_img None"
  using find_overlap_nonneg [of prev_img curr_img]
  by (auto simp: stitch_part_def crop_def Let_def)

lemma height_stitch_part_nonneg:
  assumes "0 \<le> height curr_img"
  shows "0 \<le> height (stitch_part prev_img curr_img)"
  using find_overlap_less [of prev_img curr_img] assms
  by (auto simp: height_stitch_part)

lemma sum_heights_parts:
  "sum_list (map height (stitched_parts frames)) =
     height (frames ! 0) +
     (\<Sum>i = 1..<length frames. height (frames ! i) - find_overlap (frames ! (i - 1)) (frames ! i) None)"
  by (simp add: stitched_parts_def comp_def height_stitch_part interv_sum_list_conv_sum_set_nat)

lemma sum_list_nonneg_int: "(\<And>x. x \<in> set xs \<Longrightarrow> (0::int) \<le> x) \<Longrightarrow> 0 \<le> sum_list xs"
  by (induction xs) auto

lemma parts_heights_nonneg:
  assumes "frames \<noteq> []" "list_all wf_image frames"
  shows "0 \<le> sum_list (map height (stitched_parts frames))"
proof (rule sum_list_nonneg_int)
  fix x assume "x \<in> set (map height (stitched_parts frames))"
  then consider "x = height (frames ! 0)"
    | i where "1 \<le> i" "i < length frames" "x = height (stitch_part (frames ! (i - 1)) (frames ! i))"
    by (auto simp: stitched_parts_def)
  then show "0 \<le> x"
  proof cases
    case 1
    then show ?thesis using assms by (cases frames) (auto simp: wf_image_def)
  next
    case 2
    then have "wf_image (frames ! i)" using assms by (simp add: list_all_length)
    then show ?thesis using 2 by (simp add: height_stitch_part_nonneg wf_image_def)
  qed
qed

lemma stitch_images_many:
  assumes "frames \<noteq> []" and "length frames \<noteq> 1" and "list_all wf_image frames"
  shows "stitch_images frames =
           Inr (paste_parts \<lparr>width = width (stitched_parts frames ! 0),
                              height = sum_list (map height (stitched_parts frames)),
                              rows = replicate (nat (sum_list (map height (stitched_parts frames))))
                                       (replicate (nat (3 * width (stitched_parts frames ! 0))) 0)\<rparr>
                  0 (stitched_parts frames))"
proof -
  have w: "0 \<le> width (stitched_parts frames ! 0)"
    using assms by (cases frames) (auto simp: stitched_parts_def wf_image_def)
  have h: "0 \<le> sum_list (map height (stitched_parts frames))"
    using assms(1,3) by (rule parts_heights_nonneg)
  show ?thesis
    using assms(1,2) w h by (simp add: stitch_images_def Let_def new_image_def)
qed

text \<open>
  Well-formedness is kept by every operation the Stitcher uses, and the box the Stitcher
  crops is never inverted: what it returns is a well-formed image as wide as the first
  frame.
\<close>

lemma three_nat: "0 \<le> k \<Longrightarrow> 3 * nat k = nat (3 * k)"
  by linarith

lemma width_paste_parts [simp]: "width (paste_parts result y parts) = width result"
  by (induction parts arbitrary: result y) auto

lemma length_pixel_at: "wf_image im \<Longrightarrow> length (pixel_at im x y) = 3"
proof -
  assume wf: "wf_image im"
  show ?thesis
  proof (cases "0 \<le> x \<and> x < width im \<and> 0 \<le> y \<and> y < height im")
    case False
    then have "pixel_at im x y = [0, 0, 0]" unfolding pixel_at_def by (rule if_not_P)
    then show ?thesis by simp
  next
    case True
    then have "nat y < length (rows im)" using wf by (simp add: wf_image_def)
    then have "length (rows im ! nat y) = nat (3 * width im)"
      using wf by (simp add: wf_image_def list_all_length)
    moreover have "nat (3 * x) + 3 \<le> nat (3 * width im)" using True by linarith
    moreover have "pixel_at im x y = take 3 (drop (nat (3 * x)) (rows im ! nat y))"
      unfolding pixel_at_def using True by (rule if_P)
    ultimately show ?thesis by simp
  qed
qed

lemma length_concat_pixels:
  "(\<And>x. length (f x) = 3) \<Longrightarrow> length (concat (map f xs)) = 3 * length xs"
  by (induction xs) simp_all

lemma wf_crop:
  assumes "wf_image im" "l \<le> r" "u \<le> b"
  shows "wf_image (crop (l, u, r, b) im)"
proof -
  have "length (concat (map (\<lambda>x. pixel_at im x y) xs)) = 3 * length xs" for y xs
    by (intro length_concat_pixels) (simp add: length_pixel_at assms(1))
  moreover have "3 * nat (r - l) = nat (3 * (r - l))" using assms(2) by (intro three_nat) simp
  ultimately show ?thesis using assms(2,3)
    by (simp add: wf_image_def crop_def list_all_iff)
qed

lemma wf_paste:
  assumes "wf_image dst" "wf_image src"
  shows "wf_image (paste dst src pos)"
proof -
  obtain x0 y0 where p: "pos = (x0, y0)" by force
  have "length (concat (map (\<lambda>x.
                 if x0 \<le> x \<and> x < x0 + width src \<and> y0 \<le> y \<and> y < y0 + height src
                 then pixel_at src (x - x0) (y - y0)
                 else pixel_at dst x y) xs)) = 3 * length xs" for y xs
    by (intro length_concat_pixels) (simp add: length_pixel_at assms)
  moreover have "3 * nat (width dst) = nat (3 * width dst)"
    using assms(1) by (intro three_nat) (simp add: wf_image_def)
  ultimately show ?thesis using assms(1)
    by (simp add: wf_image_def paste_def p list_all_iff)
qed

lemma wf_paste_parts:
  "wf_image result \<Longrightarrow> list_all wf_image parts \<Longrightarrow> wf_image (paste_parts result y parts)"
  by (induction parts arbitrary: result y) (simp_all add: wf_paste)

lemma wf_stitch_part:
  assumes "wf_image curr_img"
  shows "wf_image (stitch_part prev_img curr_img)"
proof (cases "0 < find_overlap prev_img curr_img None")
  case False
  then show ?thesis using assms by (simp add: stitch_part_def)
next
  case True
  then have "find_overlap prev_img curr_img None < min (height prev_img) (height curr_img) div 2"
    using find_overlap_less [of prev_img curr_img] by auto
  then have "find_overlap prev_img curr_img None \<le> height curr_img"
    using assms by (simp add: wf_image_def) linarith
  moreover have "0 \<le> width curr_img" using assms by (simp add: wf_image_def)
  ultimately show ?thesis using True assms by (simp add: stitch_part_def wf_crop)
qed

lemma wf_stitched_parts:
  assumes "frames \<noteq> []" "list_all wf_image frames"
  shows "list_all wf_image (stitched_parts frames)"
proof -
  have "wf_image (frames ! 0)" using assms by (cases frames) auto
  moreover have "wf_image (stitch_part (frames ! (i - 1)) (frames ! i))" if "i < length frames" for i
    using assms that by (intro wf_stitch_part) (simp add: list_all_length)
  ultimately show ?thesis by (simp add: stitched_parts_def list_all_iff)
qed

lemma wf_stitch_images:
  assumes "frames \<noteq> []" "list_all wf_image frames" "stitch_images frames = Inr stitched"
  shows "wf_image stitched \<and> width stitched = width (frames ! 0)"
proof (cases "length frames = 1")
  case True
  then show ?thesis using assms by (cases frames) (auto simp: stitch_images_def)
next
  case False
  let ?parts = "stitched_parts frames"
  let ?blank = "\<lparr>width = width (?parts ! 0), height = sum_list (map height ?parts),
                 rows = replicate (nat (sum_list (map height ?parts)))
                          (replicate (nat (3 * width (?parts ! 0))) 0)\<rparr>"
  have w: "0 \<le> width (?parts ! 0)"
    using assms by (cases frames) (auto simp: stitched_parts_def wf_image_def)
  have h: "0 \<le> sum_list (map height ?parts)"
    using assms(1,2) by (rule parts_heights_nonneg)
  have "wf_image ?blank" using w h by (simp add: wf_image_def list_all_iff)
  then have "wf_image (paste_parts ?blank 0 ?parts)"
    using wf_stitched_parts [OF assms(1,2)] by (rule wf_paste_parts)
  moreover have "stitched = paste_parts ?blank 0 ?parts"
    using stitch_images_many [OF assms(1) False assms(2)] assms(3) by simp
  moreover have "width (paste_parts ?blank 0 ?parts) = width (frames ! 0)"
    by (simp add: stitched_parts_def)
  ultimately show ?thesis by simp
qed

text \<open>
  What the paste loop builds: every part is laid below the previous one, row by row, so
  the rows of the result are the rows of the parts in order, each laid out at the width
  of the first frame.
\<close>

lemma upto_as_map: "[u..u + int n - 1] = map (\<lambda>j. u + int j) [0..<n]"
proof (induction n)
  case 0
  then show ?case by simp
next
  case (Suc n)
  have "[u..u + int (Suc n) - 1] = [u..u + int n - 1] @ [u + int n]"
    using upto_rec2 [of u "u + int n"] by (simp add: algebra_simps)
  then show ?case using Suc by simp
qed
















text \<open>
  C1. For a non-empty sequence of well-formed frames the Stitcher returns an image whose
  height is the first frame's height plus, for each later frame, its height minus the
  overlap \<^verbatim>\<open>_find_overlap\<close> returned for it and its predecessor (0 when none was
  found).
\<close>

theorem stitched_height:
  assumes "frames \<noteq> []" and "list_all wf_image frames"
  shows "\<exists>stitched. stitch_images frames = Inr stitched \<and>
           height stitched =
             height (frames ! 0) +
             (\<Sum>i = 1..<length frames.
                height (frames ! i) - find_overlap (frames ! (i - 1)) (frames ! i) None)"
proof (cases "length frames = 1")
  case True
  then show ?thesis by (simp add: stitch_images_def)
next
  case False
  from stitch_images_many [OF assms(1) False assms(2)] show ?thesis
    by (simp add: sum_heights_parts)
qed

theorem stitched_height_witness:
  "[solid 8 102 0, solid 8 102 0] \<noteq> [] \<and> list_all wf_image [solid 8 102 0, solid 8 102 0]
   \<and> (\<exists>stitched. stitch_images [solid 8 102 0, solid 8 102 0] = Inr stitched
         \<and> height stitched = 154)"
proof -
  have ne: "[solid 8 102 0, solid 8 102 0] \<noteq> []" by simp
  have wf: "list_all wf_image [solid 8 102 0, solid 8 102 0]" by (simp add: wf_solid)
  have h: "height (solid 8 102 0) = 102" by (simp add: solid_def)
  show ?thesis
    using ne wf stitched_height [OF ne wf]
    by (simp add: find_overlap_solid_found h)
qed

text \<open>
  C7. Stitching a one-frame sequence returns that frame itself: same size, same bytes.
\<close>

theorem stitch_single_frame: "stitch_images [f] = Inr f"
  by (simp add: stitch_images_def)




subsection \<open>Recorded runs\<close>

lemma recording_simps [simp]:
  "bring_window_to_front (recording env) h = logged (Activated h) (bring_window_to_front env h)"
  "get_window_rect (recording env) h = logged (RectQueried h) (get_window_rect env h)"
  "grab (recording env) region = logged (Grabbed region) (grab env region)"
  "keybd_event (recording env) vk scan flags extra =
     logged (KeySent vk scan flags extra) (keybd_event env vk scan flags extra)"
  "hash_bytes (recording env) = hash_bytes env"
  by (simp_all add: recording_def)

lemma traced_key:
  "traced is_key (keybd_event env vk scan flags extra)
     (logged (KeySent vk scan flags extra) (keybd_event env vk scan flags extra))"
  unfolding traced_def
proof (intro allI)
  fix w log
  obtain res w1 where f: "keybd_event env vk scan flags extra w = (res, w1)" by force
  show "\<exists>ext. logged (KeySent vk scan flags extra) (keybd_event env vk scan flags extra) (w, log)
               = (fst (keybd_event env vk scan flags extra w),
                  (snd (keybd_event env vk scan flags extra w), log @ ext))
          \<and> (\<forall>ev \<in> set ext. is_key ev)
          \<and> (\<forall>ev \<in> set ext. \<forall>e. raised ev = Some e \<longrightarrow>
                 fst (keybd_event env vk scan flags extra w) = Inl e)"
    by (rule exI [of _ "[KeySent vk scan flags extra res]"])
       (auto simp: f logged_def split: sum.splits)
qed

lemma traced_and_then:
  assumes "traced P f1 g1" and "traced P f2 g2"
  shows "traced P (and_then f1 f2) (and_then g1 g2)"
  unfolding traced_def
proof (intro allI)
  fix w log
  obtain r1 w1 where f1: "f1 w = (r1, w1)" by force
  from assms(1) obtain ext1 where g1: "g1 (w, log) = (r1, (w1, log @ ext1))"
    and p1: "\<forall>ev \<in> set ext1. P ev"
    and e1: "\<forall>ev \<in> set ext1. \<forall>e. raised ev = Some e \<longrightarrow> r1 = Inl e"
    unfolding traced_def using f1 by (metis fst_conv snd_conv)
  show "\<exists>ext. and_then g1 g2 (w, log) = (fst (and_then f1 f2 w), (snd (and_then f1 f2 w), log @ ext))
          \<and> (\<forall>ev \<in> set ext. P ev)
          \<and> (\<forall>ev \<in> set ext. \<forall>e. raised ev = Some e \<longrightarrow> fst (and_then f1 f2 w) = Inl e)"
  proof (cases r1)
    case (Inl e)
    then show ?thesis using f1 g1 p1 e1
      by (intro exI [of _ ext1]) (simp add: and_then_def)
  next
    case (Inr u)
    obtain r2 w2 where f2: "f2 w1 = (r2, w2)" by force
    from assms(2) obtain ext2 where g2: "g2 (w1, log @ ext1) = (r2, (w2, (log @ ext1) @ ext2))"
      and p2: "\<forall>ev \<in> set ext2. P ev"
      and e2: "\<forall>ev \<in> set ext2. \<forall>e. raised ev = Some e \<longrightarrow> r2 = Inl e"
      unfolding traced_def using f2 by (metis fst_conv snd_conv)
    have no1: "\<forall>ev \<in> set ext1. \<forall>e. raised ev \<noteq> Some e" using e1 Inr by auto
    show ?thesis using Inr f1 g1 f2 g2 p1 p2 e2 no1
      by (intro exI [of _ "ext1 @ ext2"]) (auto simp: and_then_def)
  qed
qed

lemma traced_scroll_down: "traced is_key (scroll_down env) (scroll_down (recording env))"
  unfolding scroll_down_def recording_simps
  by (intro traced_and_then traced_key)

lemma traced_scroll_to_top: "traced is_key (scroll_to_top env) (scroll_to_top (recording env))"
  unfolding scroll_to_top_def recording_simps
  by (intro traced_and_then traced_key)

lemma tracedD:
  assumes "traced P f g" and "f w = (res, w1)"
  obtains ext where "g (w, log) = (res, (w1, log @ ext))" "\<forall>ev \<in> set ext. P ev"
    "\<forall>ev \<in> set ext. \<forall>e. raised ev = Some e \<longrightarrow> res = Inl e"
  using assms unfolding traced_def by (metis fst_conv snd_conv)

lemma is_key_loop_event: "is_key ev \<Longrightarrow> loop_event region ev"
  by (cases ev) auto

lemma grabbed_frames_append: "grabbed_frames (xs @ ys) = grabbed_frames xs @ grabbed_frames ys"
  by (induction xs rule: grabbed_frames.induct) simp_all

lemma keys_no_frames: "\<forall>ev \<in> set evs. is_key ev \<Longrightarrow> grabbed_frames evs = []"
  by (induction evs rule: grabbed_frames.induct) simp_all

lemma capture_loop_recording:
  "capture_loop env region m c ph self w = (out, self', w') \<Longrightarrow>
   \<exists>ext. capture_loop (recording env) region m c ph self (w, log) = (out, self', (w', log @ ext))
     \<and> (\<forall>ev \<in> set ext. loop_event region ev)
     \<and> (\<forall>ev \<in> set ext. \<forall>e. raised ev = Some e \<longrightarrow> out = Inl e)
     \<and> (\<forall>e. out = Inl e \<longrightarrow> self' = self\<lparr>images := images self @ grabbed_frames ext\<rparr>)"
proof (induction env region m c ph self w arbitrary: log out self' w' rule: capture_loop.induct)
  case (1 env region max_scrolls scroll_count previous_hash self w)
  show ?case
  proof (cases "scroll_count < max_scrolls")
    case False
    then show ?thesis using "1.prems"
      by (intro exI [of _ "[]"]) (simp add: capture_loop.simps)
  next
    case True
    obtain gres w1 where g: "grab env region w = (gres, w1)" by force
    have gl: "grab (recording env) region (w, log) = (gres, (w1, log @ [Grabbed region gres]))"
      by (simp add: logged_def g)
    show ?thesis
    proof (cases gres)
      case (Inl e)
      then show ?thesis using "1.prems" True g gl
        by (intro exI [of _ "[Grabbed region gres]"])
           (auto simp: capture_loop.simps [of _ region max_scrolls scroll_count])
    next
      case (Inr img)
      let ?h = "hash_bytes env (take 10000 (tobytes img))"
      show ?thesis
      proof (cases "Some ?h = previous_hash")
        case dup: True
        then show ?thesis using "1.prems" True g gl Inr
          by (intro exI [of _ "[Grabbed region gres]"])
             (auto simp: capture_loop.simps [of _ region max_scrolls scroll_count])
      next
        case new: False
        let ?self1 = "self\<lparr>images := images self @ [img]\<rparr>"
        obtain sres w2 where s: "scroll_down env w1 = (sres, w2)" by force
        from tracedD [OF traced_scroll_down s, of "log @ [Grabbed region gres]"]
        obtain ext2 where sl: "scroll_down (recording env) (w1, log @ [Grabbed region gres])
                                = (sres, (w2, (log @ [Grabbed region gres]) @ ext2))"
          and k2: "\<forall>ev \<in> set ext2. is_key ev"
          and e2: "\<forall>ev \<in> set ext2. \<forall>e. raised ev = Some e \<longrightarrow> sres = Inl e"
          by blast
        show ?thesis
        proof (cases sres)
          case sfail: (Inl e)
          then show ?thesis using "1.prems" True g gl Inr new s sl k2 e2
            by (intro exI [of _ "Grabbed region gres # ext2"])
               (auto simp: capture_loop.simps [of _ region max_scrolls scroll_count]
                     is_key_loop_event keys_no_frames)
        next
          case sok: (Inr u)
          have rec: "capture_loop env region max_scrolls (scroll_count + 1) (Some ?h) ?self1 w2
                       = (out, self', w')"
            using "1.prems" True g Inr new s sok
            by (simp add: capture_loop.simps [of env region max_scrolls scroll_count])
          from "1.IH" [OF True g [symmetric] Inr refl new refl s [symmetric] sok rec,
                       of "(log @ [Grabbed region gres]) @ ext2"]
          obtain ext3 where
              r3: "capture_loop (recording env) region max_scrolls (scroll_count + 1) (Some ?h)
                     ?self1 (w2, (log @ [Grabbed region gres]) @ ext2)
                   = (out, self', (w', ((log @ [Grabbed region gres]) @ ext2) @ ext3))"
            and l3: "\<forall>ev \<in> set ext3. loop_event region ev"
            and e3: "\<forall>ev \<in> set ext3. \<forall>e. raised ev = Some e \<longrightarrow> out = Inl e"
            and s3: "\<forall>e. out = Inl e \<longrightarrow> self' = ?self1\<lparr>images := images ?self1 @ grabbed_frames ext3\<rparr>"
            by blast
          have no2: "\<forall>ev \<in> set ext2. \<forall>e. raised ev \<noteq> Some e" using e2 sok by auto
          have f2: "grabbed_frames ext2 = []" using k2 by (rule keys_no_frames)
          show ?thesis using True gl Inr new sl sok r3 l3 e3 k2 no2 s3 f2
            by (intro exI [of _ "Grabbed region gres # ext2 @ ext3"])
               (auto simp: capture_loop.simps [of "recording env" region max_scrolls scroll_count]
                     is_key_loop_event grabbed_frames_append)
        qed
      qed
    qed
  qed
qed

lemma loop_event_not_query: "loop_event region ev \<Longrightarrow> \<not> is_rect_query ev"
  by (cases ev) auto

lemma is_key_not_query: "is_key ev \<Longrightarrow> \<not> is_rect_query ev"
  by (cases ev) auto

lemma is_key_not_grab: "is_key ev \<Longrightarrow> ev \<noteq> Grabbed region res"
  by (cases ev) auto

lemma loop_event_grab: "loop_event region (Grabbed r res) \<Longrightarrow> r = region"
  by simp

lemma filter_queries_empty: "\<forall>ev \<in> set evs. \<not> is_rect_query ev \<Longrightarrow> filter is_rect_query evs = []"
  by (simp add: filter_empty_conv)

lemma capture_recording:
  assumes run: "capture env m self w = (out, self', w')"
  shows "\<exists>log. capture (recording env) m self (w, []) = (out, self', (w', log))
     \<and> (\<forall>ev \<in> set log. \<forall>e. raised ev = Some e \<longrightarrow> out = Inl e)
     \<and> (\<forall>ev \<in> set log. \<forall>e. raised ev = Some e \<longrightarrow>
           self' = self\<lparr>images := images self @ grabbed_frames log\<rparr>)
     \<and> length (filter is_rect_query log) \<le> 1
     \<and> (\<forall>region res. Grabbed region res \<in> set log \<longrightarrow>
           take 2 log = [Activated (hwnd self) (Inr ()), RectQueried (hwnd self) (Inr region)])"
proof -
  let ?h = "hwnd self"
  obtain r0 w1 where b: "bring_window_to_front env ?h w = (r0, w1)" by force
  show ?thesis
  proof (cases r0)
    case (Inl e)
    then show ?thesis using run b
      by (intro exI [of _ "[Activated ?h r0]"]) (auto simp: capture_def logged_def)
  next
    case act: (Inr u)
    obtain r1 w2 where q: "get_window_rect env ?h w1 = (r1, w2)" by force
    show ?thesis
    proof (cases r1)
      case (Inl e)
      then show ?thesis using run b act q
        by (intro exI [of _ "[Activated ?h r0, RectQueried ?h r1]"])
           (auto simp: capture_def logged_def)
    next
      case rect: (Inr region)
      let ?pre = "[Activated ?h r0, RectQueried ?h r1]"
      obtain r2 w3 where t: "scroll_to_top env w2 = (r2, w3)" by force
      from tracedD [OF traced_scroll_to_top t, of ?pre]
      obtain ext2 where tl: "scroll_to_top (recording env) (w2, ?pre) = (r2, (w3, ?pre @ ext2))"
        and k2: "\<forall>ev \<in> set ext2. is_key ev"
        and e2: "\<forall>ev \<in> set ext2. \<forall>e. raised ev = Some e \<longrightarrow> r2 = Inl e"
        by blast
      have pre: "capture (recording env) m self (w, []) =
                   (case scroll_to_top (recording env) (w2, ?pre) of
                      (Inl e, w3) \<Rightarrow> (Inl e, self, w3)
                    | (Inr _, w3) \<Rightarrow>
                   (case capture_loop (recording env) region m 0 None self w3 of
                      (Inl e, self1, w4) \<Rightarrow> (Inl e, self1, w4)
                    | (Inr _, self1, w4) \<Rightarrow>
                        if images self1 = [] then (Inr None, self1, w4)
                        else (case stitch_images (images self1) of
                                Inl e \<Rightarrow> (Inl e, self1, w4)
                              | Inr result \<Rightarrow> (Inr (Some result), self1, w4))))"
        using b act q rect by (simp add: capture_def logged_def)
      have q2: "filter is_rect_query ext2 = []"
        using k2 by (intro filter_queries_empty) (auto dest: is_key_not_query)
      show ?thesis
      proof (cases r2)
        case (Inl e)
        then show ?thesis using run b act q rect t tl k2 e2 q2 pre
          by (intro exI [of _ "?pre @ ext2"])
             (auto simp: capture_def keys_no_frames dest: is_key_not_grab)
      next
        case top: (Inr u2)
        obtain lres self1 w4 where l: "capture_loop env region m 0 None self w3 = (lres, self1, w4)"
          by (metis prod_cases3)
        from capture_loop_recording [OF l, of "?pre @ ext2"]
        obtain ext3 where ll: "capture_loop (recording env) region m 0 None self (w3, ?pre @ ext2)
                                 = (lres, self1, (w4, (?pre @ ext2) @ ext3))"
          and l3: "\<forall>ev \<in> set ext3. loop_event region ev"
          and e3: "\<forall>ev \<in> set ext3. \<forall>e. raised ev = Some e \<longrightarrow> lres = Inl e"
          and s3: "\<forall>e. lres = Inl e \<longrightarrow> self1 = self\<lparr>images := images self @ grabbed_frames ext3\<rparr>"
          by blast
        have q3: "filter is_rect_query ext3 = []"
          using l3 by (intro filter_queries_empty) (auto dest: loop_event_not_query)
        have no2: "\<forall>ev \<in> set ext2. \<forall>e. raised ev \<noteq> Some e" using e2 top by auto
        have g3: "\<forall>r res. Grabbed r res \<in> set ext3 \<longrightarrow> r = region"
          using l3 by (auto dest: loop_event_grab)
        have g2: "\<forall>r res. Grabbed r res \<notin> set ext2"
          using k2 by (auto dest: is_key_not_grab)
        have outs: "out = (case lres of Inl e \<Rightarrow> Inl e
                           | Inr _ \<Rightarrow> if images self1 = [] then Inr None
                                       else (case stitch_images (images self1) of
                                               Inl e \<Rightarrow> Inl e | Inr result \<Rightarrow> Inr (Some result)))"
          and fin: "self' = self1" "w' = w4"
          using run b act q rect t top l by (auto simp: capture_def split: sum.splits if_splits)
        have rec: "capture (recording env) m self (w, []) = (out, self', (w', ?pre @ ext2 @ ext3))"
          using pre tl top ll outs fin by (auto split: sum.splits)
        have fails: "\<forall>ev \<in> set ext3. \<forall>e. raised ev = Some e \<longrightarrow> out = Inl e"
          using e3 outs by auto
        have f2: "grabbed_frames (?pre @ ext2) = []"
          using k2 by (simp add: keys_no_frames)
        have store: "\<forall>ev \<in> set ext3. \<forall>e. raised ev = Some e \<longrightarrow>
                       self' = self\<lparr>images := images self @ grabbed_frames (?pre @ ext2 @ ext3)\<rparr>"
          using e3 s3 fin f2 by (auto simp: grabbed_frames_append)
        show ?thesis using rec fails store no2 q2 q3 g2 g3 act rect
          by (intro exI [of _ "?pre @ ext2 @ ext3"]) auto
      qed
    qed
  qed
qed

lemma closing_run:
  "capture (recording (scroller closes_after_first fixed_rect head_hash)) 50 (init 1) (0, []) =
     (Inl (CollaboratorError 1),
      \<lparr>hwnd = 1, images = [solid 1 1 10], scroll_amount = 100\<rparr>,
      (1, [Activated 1 (Inr ()), RectQueried 1 (Inr (0, 0, 1, 1)),
           KeySent 0x11 0 0 0 (Inr ()), KeySent 0x24 0 0 0 (Inr ()),
           KeySent 0x24 0 2 0 (Inr ()), KeySent 0x11 0 2 0 (Inr ()),
           Grabbed (0, 0, 1, 1) (Inr (solid 1 1 10)),
           KeySent 0x22 0 0 0 (Inr ()), KeySent 0x22 0 2 0 (Inr ()),
           Grabbed (0, 0, 1, 1) (Inl (CollaboratorError 1))]))"
  by code_simp

text \<open>
  C3, as amended. \<^verbatim>\<open>capture\<close> has no exception handler: when a collaborator call
  (the screenshot provider, the scroll injector, or the activation and rectangle query
  before the loop) raises, the loop is left at once and \<^verbatim>\<open>capture\<close> raises that same
  exception to its caller; it returns neither a stitched image nor the empty result. The
  object is left with the store it had on entry followed by every frame grabbed before
  the exception, and is otherwise unchanged.
\<close>

theorem collaborator_exception_propagates:
  assumes "capture (recording env) max_scrolls self (w, []) = (out, self', (w', log))"
      and "ev \<in> set log" and "raised ev = Some e"
  shows "out = Inl e \<and> capture env max_scrolls self w = (Inl e, self', w')
       \<and> self' = self\<lparr>images := images self @ grabbed_frames log\<rparr>"
proof -
  obtain out0 self0 w0 where run: "capture env max_scrolls self w = (out0, self0, w0)"
    by (metis prod_cases3)
  from capture_recording [OF run] assms show ?thesis
    using run by auto
qed

theorem collaborator_exception_propagates_witness:
  "capture (scroller closes_after_first fixed_rect head_hash) 50 (init 1) 0 =
     (Inl (CollaboratorError 1), (init 1)\<lparr>images := images (init 1) @ [solid 1 1 10]\<rparr>, 1)"
  using collaborator_exception_propagates [OF closing_run,
          of "Grabbed (0, 0, 1, 1) (Inl (CollaboratorError 1))" "CollaboratorError 1"]
  by simp

text \<open>
  The window closes after the first page: the second grab raises. One frame has been
  collected, and its stitch would be that frame, but \<^verbatim>\<open>capture\<close> raises.
\<close>

theorem partial_result_counterexample:
  "grab (scroller closes_after_first fixed_rect head_hash) (0, 0, 1, 1) 1
     = (Inl (CollaboratorError 1), 1)
   \<and> images (fst (snd (capture (scroller closes_after_first fixed_rect head_hash) 50 (init 1) 0)))
     = [solid 1 1 10]
   \<and> stitch_images [solid 1 1 10] = Inr (solid 1 1 10)
   \<and> fst (capture (scroller closes_after_first fixed_rect head_hash) 50 (init 1) 0)
     = Inl (CollaboratorError 1)
   \<and> fst (capture (scroller closes_after_first fixed_rect head_hash) 50 (init 1) 0)
     \<noteq> Inr (Some (solid 1 1 10))"
  by code_simp

lemma moving_run:
  "capture (recording (scroller two_pages moving_rect head_hash)) 2 (init 1) (0, []) =
     (Inr (Some \<lparr>width = 1, height = 2, rows = [[10, 10, 10], [20, 20, 20]]\<rparr>),
      \<lparr>hwnd = 1, images = [solid 1 1 10, solid 1 1 20], scroll_amount = 100\<rparr>,
      (2, [Activated 1 (Inr ()), RectQueried 1 (Inr (0, 0, 1, 1)),
           KeySent 0x11 0 0 0 (Inr ()), KeySent 0x24 0 0 0 (Inr ()),
           KeySent 0x24 0 2 0 (Inr ()), KeySent 0x11 0 2 0 (Inr ()),
           Grabbed (0, 0, 1, 1) (Inr (solid 1 1 10)),
           KeySent 0x22 0 0 0 (Inr ()), KeySent 0x22 0 2 0 (Inr ()),
           Grabbed (0, 0, 1, 1) (Inr (solid 1 1 20)),
           KeySent 0x22 0 0 0 (Inr ()), KeySent 0x22 0 2 0 (Inr ())]))"
  by code_simp

text \<open>
  C4, as amended. \<^verbatim>\<open>capture\<close> queries the target's rectangle at most once, before the
  loop, and every frame is grabbed over the rectangle that query returned: whenever a grab
  over \<open>region\<close> is recorded, the run began with the activation and the one rectangle
  query, which returned \<open>region\<close>.
\<close>

theorem region_queried_once:
  assumes "capture (recording env) max_scrolls self (w, []) = (out, self', (w', log))"
  shows "length (filter is_rect_query log) \<le> 1
     \<and> (\<forall>region res. Grabbed region res \<in> set log \<longrightarrow>
           take 2 log = [Activated (hwnd self) (Inr ()), RectQueried (hwnd self) (Inr region)])"
proof -
  obtain out0 self0 w0 where run: "capture env max_scrolls self w = (out0, self0, w0)"
    by (metis prod_cases3)
  from capture_recording [OF run] assms show ?thesis
    by auto
qed

theorem region_queried_once_witness:
  "length (filter is_rect_query
     (snd (snd (snd (capture (recording (scroller two_pages moving_rect head_hash)) 2 (init 1) (0, [])))))) \<le> 1
   \<and> take 2 (snd (snd (snd (capture (recording (scroller two_pages moving_rect head_hash)) 2 (init 1) (0, [])))))
       = [Activated 1 (Inr ()), RectQueried 1 (Inr (0, 0, 1, 1))]"
  using region_queried_once [OF moving_run, THEN conjunct1]
  unfolding moving_run by simp

text \<open>
  A window that moves 10 pixels to the right with every page scrolled. At the second
  iteration the scroll position is 1 and the window is at \<open>(10, 0, 1, 1)\<close>, but the frame
  is grabbed over \<open>(0, 0, 1, 1)\<close>, and the run holds a single rectangle query.
\<close>

theorem rect_requery_counterexample:
  "snd (snd (snd (capture (recording (scroller two_pages moving_rect head_hash)) 2 (init 1) (0, [])))) =
     [Activated 1 (Inr ()), RectQueried 1 (Inr (0, 0, 1, 1)),
      KeySent 0x11 0 0 0 (Inr ()), KeySent 0x24 0 0 0 (Inr ()),
      KeySent 0x24 0 2 0 (Inr ()), KeySent 0x11 0 2 0 (Inr ()),
      Grabbed (0, 0, 1, 1) (Inr (solid 1 1 10)),
      KeySent 0x22 0 0 0 (Inr ()), KeySent 0x22 0 2 0 (Inr ()),
      Grabbed (0, 0, 1, 1) (Inr (solid 1 1 20)),
      KeySent 0x22 0 0 0 (Inr ()), KeySent 0x22 0 2 0 (Inr ())]
   \<and> get_window_rect (scroller two_pages moving_rect head_hash) 1 1 = (Inr (10, 0, 1, 1), 1)
   \<and> (10, 0, 1, 1) \<noteq> ((0, 0, 1, 1) :: rect)"
  by code_simp

subsection \<open>The frame store\<close>

lemma capture_loop_store:
  "capture_loop env region m c ph self w = (out, self', w') \<Longrightarrow>
     \<exists>collected. images self' = images self @ collected"
proof (induction env region m c ph self w arbitrary: out self' w' rule: capture_loop.induct)
  case (1 env region max_scrolls scroll_count previous_hash self w)
  show ?case
  proof (cases "scroll_count < max_scrolls")
    case False
    then show ?thesis using "1.prems" by (simp add: capture_loop.simps)
  next
    case True
    obtain gres w1 where g: "grab env region w = (gres, w1)" by force
    show ?thesis
    proof (cases gres)
      case (Inl e)
      then show ?thesis using "1.prems" True g
        by (simp add: capture_loop.simps [of _ region max_scrolls scroll_count])
    next
      case (Inr img)
      let ?h = "hash_bytes env (take 10000 (tobytes img))"
      let ?self1 = "self\<lparr>images := images self @ [img]\<rparr>"
      show ?thesis
      proof (cases "Some ?h = previous_hash")
        case True
        then show ?thesis using "1.prems" \<open>scroll_count < max_scrolls\<close> g Inr
          by (simp add: capture_loop.simps [of _ region max_scrolls scroll_count])
      next
        case new: False
        obtain sres w2 where s: "scroll_down env w1 = (sres, w2)" by force
        show ?thesis
        proof (cases sres)
          case (Inl e)
          then show ?thesis using "1.prems" True g Inr new s
            by (auto simp: capture_loop.simps [of _ region max_scrolls scroll_count])
        next
          case sok: (Inr u)
          have rec: "capture_loop env region max_scrolls (scroll_count + 1) (Some ?h) ?self1 w2
                       = (out, self', w')"
            using "1.prems" True g Inr new s sok
            by (simp add: capture_loop.simps [of env region max_scrolls scroll_count])
          from "1.IH" [OF True g [symmetric] Inr refl new refl s [symmetric] sok rec]
          obtain collected where "images self' = images ?self1 @ collected" by blast
          then show ?thesis by simp
        qed
      qed
    qed
  qed
qed

lemma capture_store:
  assumes "capture env m self w = (out, self', w')"
  shows "(\<exists>collected. images self' = images self @ collected)
     \<and> (\<forall>result. out = Inr result \<longrightarrow>
           images self' = [] \<and> result = None
         \<or> (\<exists>im. result = Some im \<and> stitch_images (images self') = Inr im))"
proof -
  obtain r0 w1 where b: "bring_window_to_front env (hwnd self) w = (r0, w1)" by force
  obtain r1 w2 where q: "get_window_rect env (hwnd self) w1 = (r1, w2)" by force
  obtain r2 w3 where t: "scroll_to_top env w2 = (r2, w3)" by force
  show ?thesis
  proof (cases "\<exists>u region u2. r0 = Inr u \<and> r1 = Inr region \<and> r2 = Inr u2")
    case False
    then show ?thesis using assms b q t
      by (auto simp: capture_def split: sum.splits)
  next
    case True
    then obtain region where ok: "r0 = Inr ()" "r1 = Inr region" "r2 = Inr ()" by auto
    obtain lres self1 w4 where l: "capture_loop env region m 0 None self w3 = (lres, self1, w4)"
      by (metis prod_cases3)
    from capture_loop_store [OF l] obtain collected where c: "images self1 = images self @ collected"
      by blast
    show ?thesis using assms b q t ok l c
      by (auto simp: capture_def split: sum.splits if_splits)
  qed
qed

lemma first_call:
  "capture (scroller two_pages fixed_rect head_hash) 50 (init 1) 0 =
     (Inr (Some \<lparr>width = 1, height = 2, rows = [[10, 10, 10], [20, 20, 20]]\<rparr>),
      \<lparr>hwnd = 1, images = [solid 1 1 10, solid 1 1 20], scroll_amount = 100\<rparr>, 2)"
  by code_simp

lemma second_call:
  "capture (scroller two_pages fixed_rect head_hash) 50
     \<lparr>hwnd = 1, images = [solid 1 1 10, solid 1 1 20], scroll_amount = 100\<rparr> 2 =
     (Inr (Some \<lparr>width = 1, height = 4,
                 rows = [[10, 10, 10], [20, 20, 20], [10, 10, 10], [20, 20, 20]]\<rparr>),
      \<lparr>hwnd = 1, images = [solid 1 1 10, solid 1 1 20, solid 1 1 10, solid 1 1 20],
         scroll_amount = 100\<rparr>, 2)"
  by code_simp

text \<open>
  C6, as amended. \<^verbatim>\<open>capture\<close> never empties \<^verbatim>\<open>self.images\<close>: after a call the store
  holds the frames it held before followed by those collected in that call, a second call
  on the same object appends to that store, and what it returns is the stitch of the whole
  store, earlier frames included (or the empty result if the store is still empty).
\<close>

theorem frame_store_kept:
  assumes first: "capture env m1 self w = (out1, self1, w1)"
      and second: "capture env m2 self1 w1 = (out2, self2, w2)"
  shows "\<exists>c1 c2. images self1 = images self @ c1 \<and> images self2 = images self @ c1 @ c2
           \<and> (\<forall>result. out2 = Inr result \<longrightarrow>
                 images self2 = [] \<and> result = None
               \<or> (\<exists>im. result = Some im \<and> stitch_images (images self @ c1 @ c2) = Inr im))"
proof -
  from capture_store [OF first] obtain c1 where c1: "images self1 = images self @ c1" by blast
  from capture_store [OF second] obtain c2 where c2: "images self2 = images self1 @ c2"
    and r: "\<forall>result. out2 = Inr result \<longrightarrow>
              images self2 = [] \<and> result = None
            \<or> (\<exists>im. result = Some im \<and> stitch_images (images self2) = Inr im)"
    by blast
  show ?thesis using c1 c2 r by (intro exI [of _ c1] exI [of _ c2]) auto
qed

theorem frame_store_kept_witness:
  "\<exists>c1 c2. [solid 1 1 10, solid 1 1 20] = images (init 1) @ c1
     \<and> [solid 1 1 10, solid 1 1 20, solid 1 1 10, solid 1 1 20] = images (init 1) @ c1 @ c2
     \<and> stitch_images (images (init 1) @ c1 @ c2)
         = Inr \<lparr>width = 1, height = 4,
                rows = [[10, 10, 10], [20, 20, 20], [10, 10, 10], [20, 20, 20]]\<rparr>"
  using frame_store_kept [OF first_call second_call] by simp

text \<open>
  Two calls on one object over a two-page window: the second call returns the stitch of
  four frames, the two of the first call and its own two.
\<close>

theorem store_discarded_counterexample:
  "capture (scroller two_pages fixed_rect head_hash) 50 (init 1) 0 =
     (Inr (Some \<lparr>width = 1, height = 2, rows = [[10, 10, 10], [20, 20, 20]]\<rparr>),
      \<lparr>hwnd = 1, images = [solid 1 1 10, solid 1 1 20], scroll_amount = 100\<rparr>, 2)
   \<and> capture (scroller two_pages fixed_rect head_hash) 50
       \<lparr>hwnd = 1, images = [solid 1 1 10, solid 1 1 20], scroll_amount = 100\<rparr> 2 =
     (Inr (Some \<lparr>width = 1, height = 4,
                 rows = [[10, 10, 10], [20, 20, 20], [10, 10, 10], [20, 20, 20]]\<rparr>),
      \<lparr>hwnd = 1, images = [solid 1 1 10, solid 1 1 20, solid 1 1 10, solid 1 1 20],
         scroll_amount = 100\<rparr>, 2)"
  by code_simp

subsection \<open>The first frame\<close>











subsection \<open>The fingerprint\<close>

lemma agree_hash: "agree_on_prefix R env1 env2 \<Longrightarrow> hash_bytes env1 = hash_bytes env2"
  by (simp add: agree_on_prefix_def)

lemma agree_key:
  assumes "agree_on_prefix R env1 env2" and "R w1 w2"
  shows "R (snd (keybd_event env1 vk scan flags extra w1)) (snd (keybd_event env2 vk scan flags extra w2))"
    and "fst (keybd_event env1 vk scan flags extra w1) = fst (keybd_event env2 vk scan flags extra w2)"
  using assms unfolding agree_on_prefix_def by blast+

lemma agree_grab:
  assumes "agree_on_prefix R env1 env2" and "R w1 w2"
  shows "R (snd (grab env1 region w1)) (snd (grab env2 region w2))"
    and "case (fst (grab env1 region w1), fst (grab env2 region w2)) of
           (Inr a, Inr b) \<Rightarrow> prefix_equal a b
         | (Inl e1, Inl e2) \<Rightarrow> e1 = e2
         | _ \<Rightarrow> False"
  using assms unfolding agree_on_prefix_def by blast+

lemma agree_scroll_down:
  assumes a: "agree_on_prefix R env1 env2" and r: "R w1 w2"
  shows "fst (scroll_down env1 w1) = fst (scroll_down env2 w2)
       \<and> R (snd (scroll_down env1 w1)) (snd (scroll_down env2 w2))"
proof -
  obtain ra wa where ka: "keybd_event env1 0x22 0 0 0 w1 = (ra, wa)" by force
  obtain rb wb where kb: "keybd_event env2 0x22 0 0 0 w2 = (rb, wb)" by force
  have r1: "R wa wb" "ra = rb"
    using agree_key [OF a r, of "0x22" 0 0 0] ka kb by auto
  show ?thesis
  proof (cases ra)
    case (Inl e)
    then show ?thesis using ka kb r1 by (simp add: scroll_down_def and_then_def)
  next
    case (Inr u)
    then show ?thesis using ka kb r1 agree_key [OF a r1(1), of "0x22" 0 2 0]
      by (simp add: scroll_down_def and_then_def)
  qed
qed

lemma capture_loop_agree:
  "agree_on_prefix R env1 env2 \<Longrightarrow> R wa wb \<Longrightarrow>
   capture_loop env1 region m c ph selfa wa = (oa, sa, wa') \<Longrightarrow>
   capture_loop env2 region m c ph selfb wb = (ob, sb, wb') \<Longrightarrow>
     oa = ob \<and> R wa' wb' \<and>
     (\<exists>n. length (images sa) = length (images selfa) + n
         \<and> length (images sb) = length (images selfb) + n)"
proof (induction env1 region m c ph selfa wa arbitrary: selfb wb oa sa wa' ob sb wb'
         rule: capture_loop.induct)
  case (1 env1 region max_scrolls scroll_count previous_hash selfa wa)
  note agree = "1.prems"(1) and rel = "1.prems"(2)
  show ?case
  proof (cases "scroll_count < max_scrolls")
    case False
    then show ?thesis using "1.prems" by (auto simp: capture_loop.simps)
  next
    case True
    obtain ga wa1 where g1: "grab env1 region wa = (ga, wa1)" by force
    obtain gb wb1 where g2: "grab env2 region wb = (gb, wb1)" by force
    have r1: "R wa1 wb1" using agree_grab(1) [OF agree rel, of region] g1 g2 by simp
    have gg: "case (ga, gb) of (Inr a, Inr b) \<Rightarrow> prefix_equal a b
              | (Inl e1, Inl e2) \<Rightarrow> e1 = e2 | _ \<Rightarrow> False"
      using agree_grab(2) [OF agree rel, of region] g1 g2 by simp
    show ?thesis
    proof (cases ga)
      case (Inl e)
      then have "gb = Inl e" using gg by (auto split: sum.splits)
      then show ?thesis using "1.prems" True g1 g2 Inl r1
        by (auto simp: capture_loop.simps [of _ region max_scrolls scroll_count])
    next
      case (Inr a)
      then obtain b where gb: "gb = Inr b" and pe: "prefix_equal a b"
        using gg by (auto split: sum.splits)
      let ?h = "hash_bytes env1 (take 10000 (tobytes a))"
      have h2: "hash_bytes env2 (take 10000 (tobytes b)) = ?h"
        using pe agree_hash [OF agree] by (simp add: prefix_equal_def)
      show ?thesis
      proof (cases "Some ?h = previous_hash")
        case dup: True
        then show ?thesis using "1.prems" True g1 g2 Inr gb h2 r1
          by (auto simp: capture_loop.simps [of _ region max_scrolls scroll_count])
      next
        case new: False
        let ?sa1 = "selfa\<lparr>images := images selfa @ [a]\<rparr>"
        let ?sb1 = "selfb\<lparr>images := images selfb @ [b]\<rparr>"
        obtain ra wa2 where s1: "scroll_down env1 wa1 = (ra, wa2)" by force
        obtain rb wb2 where s2: "scroll_down env2 wb1 = (rb, wb2)" by force
        have r2: "ra = rb" "R wa2 wb2" using agree_scroll_down [OF agree r1] s1 s2 by auto
        show ?thesis
        proof (cases ra)
          case (Inl e)
          then have "oa = Inl e" "sa = ?sa1" "wa' = wa2" "ob = Inl e" "sb = ?sb1" "wb' = wb2"
            using "1.prems" True g1 g2 Inr gb h2 new s1 s2 r2
            by (auto simp: capture_loop.simps [of _ region max_scrolls scroll_count])
          then show ?thesis using r2 by (auto intro: exI [of _ 1])
        next
          case sok: (Inr u)
          have reca: "capture_loop env1 region max_scrolls (scroll_count + 1) (Some ?h) ?sa1 wa2
                        = (oa, sa, wa')"
            using "1.prems" True g1 Inr new s1 sok
            by (simp add: capture_loop.simps [of env1 region max_scrolls scroll_count])
          have recb: "capture_loop env2 region max_scrolls (scroll_count + 1) (Some ?h) ?sb1 wb2
                        = (ob, sb, wb')"
            using "1.prems" True g2 gb h2 new s2 sok r2
            by (simp add: capture_loop.simps [of env2 region max_scrolls scroll_count])
          from "1.IH" [OF True g1 [symmetric] Inr refl new refl s1 [symmetric] sok agree r2(2) reca recb]
          obtain n where "oa = ob" "R wa' wb'"
            "length (images sa) = length (images ?sa1) + n"
            "length (images sb) = length (images ?sb1) + n"
            by blast
          then show ?thesis by (auto intro: exI [of _ "Suc n"])
        qed
      qed
    qed
  qed
qed

lemma second_capture_discarded:
  assumes "scroll_count + 1 < max_scrolls"
      and "grab env region w = (Inr first, w1)"
      and "Some (hash_bytes env (take 10000 (tobytes first))) \<noteq> previous_hash"
      and "scroll_down env w1 = (Inr (), w2)"
      and "grab env region w2 = (Inr second, w3)"
      and "prefix_equal first second"
  shows "capture_loop env region max_scrolls scroll_count previous_hash self w
           = (Inr (), self\<lparr>images := images self @ [first]\<rparr>, w3)"
proof -
  have "capture_loop env region max_scrolls scroll_count previous_hash self w
        = capture_loop env region max_scrolls (scroll_count + 1)
            (Some (hash_bytes env (take 10000 (tobytes first))))
            (self\<lparr>images := images self @ [first]\<rparr>) w2"
    using assms by (simp add: capture_loop.simps [of env region max_scrolls scroll_count])
  also have "\<dots> = (Inr (), self\<lparr>images := images self @ [first]\<rparr>, w3)"
    using assms by (simp add: capture_loop.simps [of env region max_scrolls "scroll_count + 1"]
                      prefix_equal_def)
  finally show ?thesis .
qed

lemma concat_replicate_replicate: "concat (replicate n (replicate m x)) = replicate (n * m) x"
  by (induction n) (simp_all add: replicate_add)

lemma tobytes_tailed: "tobytes (tailed v t) = replicate 11700 v @ replicate 300 t"
  by (simp add: tobytes_def tailed_def concat_replicate_replicate)

lemma prefix_tailed: "take 10000 (tobytes (tailed v t)) = replicate 10000 v"
  by (simp add: tobytes_tailed)

lemma prefix_equal_tailed: "prefix_equal (tailed v t) (tailed v t')"
  by (simp add: prefix_equal_def prefix_tailed)

lemma tailed_differ: "t \<noteq> t' \<Longrightarrow> tobytes (tailed v t) \<noteq> tobytes (tailed v t')"
  by (simp add: tobytes_tailed)

lemma agree_tailed_pages:
  "agree_on_prefix (=) (scroller (tailed_pages 1) fixed_rect head_hash)
                       (scroller (tailed_pages 2) fixed_rect head_hash)"
  by (simp add: agree_on_prefix_def scroller_def tailed_pages_def prefix_equal_tailed)

text \<open>
  C8. The stop decision reads only the first 10000 bytes of a frame's buffer. When two
  consecutive captures agree on those bytes, the first having been stored, the loop stops
  at the second and does not store it, whatever the bytes beyond. And two runs whose
  collaborators behave alike except for the bytes past the prefix of each frame end the
  same way, in related worlds, after storing the same number of frames.
\<close>

theorem verdict_depends_on_prefix_only:
  "(scroll_count + 1 < max_scrolls
      \<and> grab env region w = (Inr first, w1)
      \<and> Some (hash_bytes env (take 10000 (tobytes first))) \<noteq> previous_hash
      \<and> scroll_down env w1 = (Inr (), w2)
      \<and> grab env region w2 = (Inr second, w3)
      \<and> prefix_equal first second
    \<longrightarrow> capture_loop env region max_scrolls scroll_count previous_hash self w
          = (Inr (), self\<lparr>images := images self @ [first]\<rparr>, w3))
   \<and> (agree_on_prefix R env1 env2 \<and> R wa wb
    \<longrightarrow> fst (capture_loop env1 region max_scrolls scroll_count previous_hash selfa wa)
          = fst (capture_loop env2 region max_scrolls scroll_count previous_hash selfb wb)
        \<and> R (snd (snd (capture_loop env1 region max_scrolls scroll_count previous_hash selfa wa)))
            (snd (snd (capture_loop env2 region max_scrolls scroll_count previous_hash selfb wb)))
        \<and> (\<exists>n. length (images (fst (snd (capture_loop env1 region max_scrolls scroll_count
                                            previous_hash selfa wa))))
                  = length (images selfa) + n
              \<and> length (images (fst (snd (capture_loop env2 region max_scrolls scroll_count
                                            previous_hash selfb wb))))
                  = length (images selfb) + n))"
proof (intro conjI impI)
  assume "scroll_count + 1 < max_scrolls
      \<and> grab env region w = (Inr first, w1)
      \<and> Some (hash_bytes env (take 10000 (tobytes first))) \<noteq> previous_hash
      \<and> scroll_down env w1 = (Inr (), w2)
      \<and> grab env region w2 = (Inr second, w3)
      \<and> prefix_equal first second"
  then show "capture_loop env region max_scrolls scroll_count previous_hash self w
          = (Inr (), self\<lparr>images := images self @ [first]\<rparr>, w3)"
    by (intro second_capture_discarded) auto
next
  assume a: "agree_on_prefix R env1 env2 \<and> R wa wb"
  obtain oa sa wa' where la: "capture_loop env1 region max_scrolls scroll_count previous_hash selfa wa
                                = (oa, sa, wa')" by (metis prod_cases3)
  obtain ob sb wb' where lb: "capture_loop env2 region max_scrolls scroll_count previous_hash selfb wb
                                = (ob, sb, wb')" by (metis prod_cases3)
  from capture_loop_agree [OF conjunct1 [OF a] conjunct2 [OF a] la lb]
  have r: "oa = ob \<and> R wa' wb' \<and>
     (\<exists>n. length (images sa) = length (images selfa) + n
         \<and> length (images sb) = length (images selfb) + n)" .
  show "fst (capture_loop env1 region max_scrolls scroll_count previous_hash selfa wa)
          = fst (capture_loop env2 region max_scrolls scroll_count previous_hash selfb wb)"
    using r la lb by simp
  show "R (snd (snd (capture_loop env1 region max_scrolls scroll_count previous_hash selfa wa)))
            (snd (snd (capture_loop env2 region max_scrolls scroll_count previous_hash selfb wb)))"
    using r la lb by simp
  show "\<exists>n. length (images (fst (snd (capture_loop env1 region max_scrolls scroll_count
                                            previous_hash selfa wa))))
                  = length (images selfa) + n
              \<and> length (images (fst (snd (capture_loop env2 region max_scrolls scroll_count
                                            previous_hash selfb wb))))
                  = length (images selfb) + n"
    using r la lb by simp
qed

theorem verdict_depends_on_prefix_only_witness:
  "tobytes (tailed 10 1) \<noteq> tobytes (tailed 10 2)
   \<and> capture_loop (scroller same_page_new_tail fixed_rect head_hash) (0, 0, 1, 1) 50 0 None (init 1) 0
       = (Inr (), (init 1)\<lparr>images := images (init 1) @ [tailed 10 1]\<rparr>, 1)
   \<and> fst (capture_loop (scroller (tailed_pages 1) fixed_rect head_hash) (0, 0, 1, 1) 50 0 None (init 1) 0)
       = fst (capture_loop (scroller (tailed_pages 2) fixed_rect head_hash) (0, 0, 1, 1) 50 0 None (init 1) 0)
   \<and> (\<exists>n. length (images (fst (snd (capture_loop (scroller (tailed_pages 1) fixed_rect head_hash)
                                        (0, 0, 1, 1) 50 0 None (init 1) 0))))
               = length (images (init 1)) + n
          \<and> length (images (fst (snd (capture_loop (scroller (tailed_pages 2) fixed_rect head_hash)
                                        (0, 0, 1, 1) 50 0 None (init 1) 0))))
               = length (images (init 1)) + n)"
proof -
  let ?E = "scroller same_page_new_tail fixed_rect head_hash"
  have d: "tobytes (tailed 10 1) \<noteq> tobytes (tailed 10 2)" by (simp add: tailed_differ)
  have c: "(0::int) + 1 < 50" by simp
  have g1: "grab ?E (0, 0, 1, 1) 0 = (Inr (tailed 10 1), 0)"
    by (simp add: scroller_def same_page_new_tail_def)
  have n: "Some (hash_bytes ?E (take 10000 (tobytes (tailed 10 1)))) \<noteq> None" by simp
  have s: "scroll_down ?E 0 = (Inr (), 1)"
    by (simp add: scroll_down_def and_then_def scroller_def)
  have g2: "grab ?E (0, 0, 1, 1) 1 = (Inr (tailed 10 2), 1)"
    by (simp add: scroller_def same_page_new_tail_def)
  have p: "prefix_equal (tailed 10 1) (tailed 10 2)" by (rule prefix_equal_tailed)
  have hyp1: "(0::int) + 1 < 50
      \<and> grab ?E (0, 0, 1, 1) 0 = (Inr (tailed 10 1), 0)
      \<and> Some (hash_bytes ?E (take 10000 (tobytes (tailed 10 1)))) \<noteq> None
      \<and> scroll_down ?E 0 = (Inr (), 1)
      \<and> grab ?E (0, 0, 1, 1) 1 = (Inr (tailed 10 2), 1)
      \<and> prefix_equal (tailed 10 1) (tailed 10 2)"
    using c g1 n s g2 p by blast
  have hyp2: "agree_on_prefix (=) (scroller (tailed_pages 1) fixed_rect head_hash)
                (scroller (tailed_pages 2) fixed_rect head_hash) \<and> (0::nat) = 0"
    using agree_tailed_pages by simp
  from verdict_depends_on_prefix_only
         [of 0 50 ?E "(0, 0, 1, 1)" 0 "tailed 10 1" 0 None 1 "tailed 10 2" 1 "init 1"
             "(=)" "scroller (tailed_pages 1) fixed_rect head_hash"
             "scroller (tailed_pages 2) fixed_rect head_hash" 0 0 "init 1" "init 1"]
       hyp1 hyp2 d
  show ?thesis by blast
qed

subsection \<open>The scroll fixture\<close>

lemma concat_map_replicate: "concat (map (\<lambda>x. replicate k v) xs) = replicate (length xs * k) v"
  by (induction xs) (simp_all add: replicate_add)

lemma page_row: "y < 300 \<Longrightarrow> rows (page t) ! y = replicate 300 (of_nat (t + y))"
  by (simp add: page_def)

lemma pixel_at_page:
  assumes "0 \<le> x" "x < 100" "0 \<le> y" "y < 300"
  shows "pixel_at (page t) x y = replicate 3 (of_nat (t + nat y))"
proof -
  have "nat y < 300" using assms by simp
  then have r: "rows (page t) ! nat y = replicate 300 (of_nat (t + nat y))" by (rule page_row)
  have m: "min 3 (300 - nat (3 * x)) = 3" using assms by simp
  have d: "width (page t) = 100" "height (page t) = 300" by (simp_all add: page_def)
  show ?thesis using assms by (simp add: pixel_at_def r d m)
qed

lemma crop_page:
  assumes "0 \<le> u" "u + 50 \<le> 300"
  shows "crop (38, u, 62, u + 50) (page t) =
           \<lparr>width = 24, height = 50,
            rows = map (\<lambda>j. replicate 72 (of_nat (t + nat u + j))) [0..<50]\<rparr>"
proof -
  have row: "concat (map (\<lambda>x. pixel_at (page t) x y) [38..61]) = replicate 72 (of_nat (t + nat y))"
    if "0 \<le> y" "y < 300" for y
  proof -
    have "map (\<lambda>x. pixel_at (page t) x y) [38..61]
            = map (\<lambda>x. replicate 3 (of_nat (t + nat y))) [38..61]"
      using that by (intro map_cong refl pixel_at_page) auto
    moreover have "concat (map (\<lambda>x. replicate 3 (of_nat (t + nat y) :: byte)) [38..61])
            = replicate (length [38..61::int] * 3) (of_nat (t + nat y))"
      by (rule concat_map_replicate)
    moreover have "length [38..61::int] * 3 = 72" by simp
    ultimately show ?thesis by (simp only:)
  qed
  have "[u..u + 50 - 1] = map (\<lambda>j. u + int j) [0..<50]"
    using upto_as_map [of u 50] by simp
  then have "map (\<lambda>y. concat (map (\<lambda>x. pixel_at (page t) x y) [38..61])) [u..u + 50 - 1]
        = map (\<lambda>j. concat (map (\<lambda>x. pixel_at (page t) x (u + int j)) [38..61])) [0..<50]"
    by (simp add: comp_def)
  also have "\<dots> = map (\<lambda>j. replicate 72 (of_nat (t + nat u + j))) [0..<50]"
  proof (intro map_cong refl)
    fix j assume "j \<in> set [0..<50]"
    then have j: "j < 50" by simp
    have "nat (u + int j) = nat u + j" using assms by simp
    then show "concat (map (\<lambda>x. pixel_at (page t) x (u + int j)) [38..61])
                 = replicate 72 (of_nat (t + nat u + j))"
      using row [of "u + int j"] assms j by (simp add: add.assoc)
  qed
  finally show ?thesis by (simp add: crop_def)
qed

lemma count_matching_rows:
  "count_matching (concat (map (\<lambda>j. replicate k (a j)) js)) (concat (map (\<lambda>j. replicate k (b j)) js))
     = int k * int (length (filter (\<lambda>j. a j = b j) js))"
proof (induction js)
  case Nil
  then show ?case by (simp add: count_matching_def)
next
  case (Cons j js)
  have "count_matching (replicate k (a j) @ xs) (replicate k (b j) @ ys)
          = (if a j = b j then int k else 0) + count_matching xs ys" for xs ys
    by (simp add: count_matching_def zip_replicate)
  then show ?case using Cons by (simp add: algebra_simps)
qed

lemma strips_page:
  assumes "0 \<le> u" "u \<le> 250"
  shows "candidate_matches (page s) (page t) (300 - u) \<longleftrightarrow>
           4750 \<le> 100 * int (length (filter (\<lambda>j. (of_nat (s + nat u + j) :: byte) = of_nat (t + j)) [0..<50]))"
proof -
  have d: "width (page s) = 100" "height (page s) = 300" by (simp_all add: page_def)
  have c1: "crop (38, u, 62, u + 50) (page s) =
           \<lparr>width = 24, height = 50,
            rows = map (\<lambda>j. replicate 72 (of_nat (s + nat u + j))) [0..<50]\<rparr>"
    using assms by (intro crop_page) auto
  have c2: "crop (38, 0, 62, 50) (page t) =
           \<lparr>width = 24, height = 50,
            rows = map (\<lambda>j. replicate 72 (of_nat (t + j))) [0..<50]\<rparr>"
    using crop_page [of 0 t] by simp
  show ?thesis
    by (simp add: candidate_matches_def strips_match_def d c1 c2 images_match_def tobytes_def
                  count_matching_rows)
qed

lemma byte_of_nat_eq: "(of_nat a :: byte) = of_nat b \<longleftrightarrow> a mod 256 = b mod 256"
  by (simp add: word_of_nat_eq_iff take_bit_eq_mod)

lemma mod_shift_differs:
  fixes a d :: nat
  assumes "0 < d" "d < 256"
  shows "(a + d) mod 256 \<noteq> a mod 256"
proof
  assume "(a + d) mod 256 = a mod 256"
  then have "(a + d - a) mod 256 = 0"
    by (metis add_diff_cancel_left' mod_add_left_eq mod_add_self1 mod_eq_dvd_iff_nat le_add1 dvd_imp_mod_0)
  then show False using assms by simp
qed


lemma bytes_differ:
  assumes "0 < d" "d < 256"
  shows "(of_nat (a + d) :: byte) \<noteq> of_nat a"
  using mod_shift_differs [OF assms, of a] by (simp only: byte_of_nat_eq not_False_eq_True)

lemma page_candidate_differs:
  assumes "0 \<le> u" "u \<le> 250" "t < s + nat u" "s + nat u < t + 256"
  shows "\<not> candidate_matches (page s) (page t) (300 - u)"
proof -
  have "(of_nat (s + nat u + j) :: byte) \<noteq> of_nat (t + j)" for j
  proof -
    have e: "s + nat u + j = (t + j) + (s + nat u - t)" using assms by simp
    have "0 < s + nat u - t" "s + nat u - t < 256" using assms by simp_all
    then have "(of_nat ((t + j) + (s + nat u - t)) :: byte) \<noteq> of_nat (t + j)"
      by (rule bytes_differ)
    then show ?thesis by (simp only: e [symmetric] not_False_eq_True)
  qed
  then have f: "filter (\<lambda>j. (of_nat (s + nat u + j) :: byte) = of_nat (t + j)) [0..<50] = []"
    by (intro filter_False) simp
  have "candidate_matches (page s) (page t) (300 - u) \<longleftrightarrow>
           4750 \<le> 100 * int (length (filter (\<lambda>j. (of_nat (s + nat u + j) :: byte) = of_nat (t + j)) [0..<50]))"
    using assms(1,2) by (rule strips_page)
  also have "\<dots> \<longleftrightarrow> False" by (simp only: f) simp
  finally show ?thesis by simp
qed

lemma page_candidate_same:
  assumes "0 \<le> u" "u \<le> 250" "s + nat u = t"
  shows "candidate_matches (page s) (page t) (300 - u)"
proof -
  have "filter (\<lambda>j. (of_nat (s + nat u + j) :: byte) = of_nat (t + j)) [0..<50]
          = filter (\<lambda>j. True) [0..<50]"
    by (simp only: assms(3) simp_thms)
  then have f: "length (filter (\<lambda>j. (of_nat (s + nat u + j) :: byte) = of_nat (t + j)) [0..<50]) = 50"
    by (simp only: filter_True length_upt) simp
  have "candidate_matches (page s) (page t) (300 - u) \<longleftrightarrow>
           4750 \<le> 100 * int (length (filter (\<lambda>j. (of_nat (s + nat u + j) :: byte) = of_nat (t + j)) [0..<50]))"
    using assms(1,2) by (rule strips_page)
  also have "\<dots> \<longleftrightarrow> True" by (simp only: f) simp
  finally show ?thesis by simp
qed

lemma candidates_pages: "candidates (page s) (page t) = [50, 60, 70, 80, 90, 100, 110, 120, 130, 140]"
proof -
  have "[0..<10] = [0, 1, 2, 3, 4, 5, 6, 7, 8, 9::nat]" by (simp add: upt_rec)
  then show ?thesis by (simp add: candidates_def page_def py_range_def)
qed

lemma find_overlap_shift_80: "find_overlap (page 0) (page 80) None = 0"
proof -
  have "\<not> candidate_matches (page 0) (page 80) c" if "c \<in> set (candidates (page 0) (page 80))" for c
  proof -
    have c: "50 \<le> c" "c \<le> 140" using that by (auto simp: candidates_pages)
    have "\<not> candidate_matches (page 0) (page 80) (300 - (300 - c))"
      using c by (intro page_candidate_differs) auto
    then show ?thesis by simp
  qed
  then have "find (candidate_matches (page 0) (page 80)) (candidates (page 0) (page 80)) = None"
    by (simp add: find_None_iff)
  then show ?thesis by (simp add: find_overlap_find)
qed

lemma find_overlap_shift_220: "find_overlap (page 0) (page 220) None = 80"
proof -
  have no: "\<not> candidate_matches (page 0) (page 220) c" if "c \<in> {50, 60, 70}" for c
  proof -
    have c: "50 \<le> c" "c \<le> 70" using that by auto
    have "\<not> candidate_matches (page 0) (page 220) (300 - (300 - c))"
      using c by (intro page_candidate_differs) auto
    then show ?thesis by simp
  qed
  have "candidate_matches (page 0) (page 220) (300 - 220)"
    by (intro page_candidate_same) auto
  then have yes: "candidate_matches (page 0) (page 220) 80" by simp
  show ?thesis using no yes by (simp add: find_overlap_find candidates_pages)
qed

theorem find_overlap_result_witness:
  "find_overlap (solid 8 102 0) (solid 8 102 0) None = 50
   \<and> candidate_matches (solid 8 102 0) (solid 8 102 0) 50
   \<and> 2 \<le> min (height (page 0)) (height (page 220))
   \<and> find_overlap (page 0) (page 220) None = 80
   \<and> candidate_matches (page 0) (page 220) 80
   \<and> \<not> candidate_matches (page 0) (page 220) 50
   \<and> \<not> candidate_matches (page 0) (page 220) 60
   \<and> \<not> candidate_matches (page 0) (page 220) 70
   \<and> find_overlap (page 0) (page 80) None = 0
   \<and> \<not> candidate_matches (page 0) (page 80) 50
   \<and> \<not> candidate_matches (page 0) (page 80) 80
   \<and> \<not> candidate_matches (page 0) (page 80) 140
   \<and> stitch_part (page 0) (page 80) = page 80"
proof -
  have a: "find_overlap (solid 8 102 0) (solid 8 102 0) None = 50
           \<and> candidate_matches (solid 8 102 0) (solid 8 102 0) 50"
    using find_overlap_result [of "solid 8 102 0" "solid 8 102 0"]
    by (simp add: find_overlap_solid_found)
  have b: "candidate_matches (page 0) (page 220) 80
           \<and> (\<forall>c \<in> set (candidates (page 0) (page 220)).
                 c < 80 \<longrightarrow> \<not> candidate_matches (page 0) (page 220) c)"
    using find_overlap_result [of "page 0" "page 220"]
    by (simp add: find_overlap_shift_220)
  have c: "(\<forall>c \<in> set (candidates (page 0) (page 80)). \<not> candidate_matches (page 0) (page 80) c)
           \<and> stitch_part (page 0) (page 80) = page 80"
    using find_overlap_result [of "page 0" "page 80"]
    by (simp add: find_overlap_shift_80)
  have d: "2 \<le> min (height (page 0)) (height (page 220))" by (simp add: page_def)
  show ?thesis
    using a b c d by (simp add: candidates_pages find_overlap_shift_220 find_overlap_shift_80)
qed

lemma page_dims [simp]: "width (page t) = 100" "height (page t) = 300"
  by (simp_all add: page_def)

lemma wf_page: "wf_image (page t)"
  by (simp add: wf_image_def page_def list_all_iff)

lemma tobytes_page_head: "\<exists>rest. tobytes (page t) = of_nat t # rest"
proof -
  have a: "[0..<300] = 0 # [1..<300]" by (simp add: upt_conv_Cons)
  have b: "replicate 300 (of_nat t :: byte) = of_nat t # replicate 299 (of_nat t)"
    by (simp add: replicate_Suc [symmetric] del: replicate_Suc)
  show ?thesis unfolding tobytes_def page_def by (simp only: image.simps a list.map concat.simps add_0_right b append_Cons) blast
qed

lemma head_hash_page: "head_hash (take 10000 (tobytes (page t))) = 1 + uint (of_nat t :: byte)"
proof -
  obtain rest where "tobytes (page t) = of_nat t # rest" using tobytes_page_head by blast
  moreover have "(10000::nat) = Suc 9999" by simp
  ultimately show ?thesis by (simp only: take_Suc_Cons head_hash_def list.case)
qed


lemma capture_scrolled:
  assumes "0 < step" "step < 256"
  shows "capture (scroller (scrolled_by step) window_rect head_hash) 50 (init 1) 0 =
           (map_sum id Some (stitch_images [page 0, page step]),
            \<lparr>hwnd = 1, images = [page 0, page step], scroll_amount = 100\<rparr>, 2)"
proof -
  let ?E = "scroller (scrolled_by step) window_rect head_hash"
  let ?r = "(0, 0, 100, 300) :: rect"
  let ?s1 = "\<lparr>hwnd = 1, images = [page 0], scroll_amount = 100\<rparr>"
  let ?s2 = "\<lparr>hwnd = 1, images = [page 0, page step], scroll_amount = 100\<rparr>"
  have ne: "uint (of_nat step :: byte) \<noteq> 0"
  proof -
    have "(of_nat step :: byte) \<noteq> of_nat 0" using assms bytes_differ [of step 0] by simp
    then show ?thesis by (simp add: uint_0_iff)
  qed
  have g: "grab ?E ?r pos = (Inr (page (if pos = 0 then 0 else step)), pos)" for pos
    by (simp add: scroller_def scrolled_by_def)
  have s: "scroll_down ?E pos = (Inr (), Suc pos)" for pos
    by (simp add: scroll_down_def and_then_def scroller_def)
  have h: "hash_bytes ?E = head_hash" by (simp add: scroller_def)
  have l3: "capture_loop ?E ?r 50 2 (Some (1 + uint (of_nat step :: byte))) ?s2 (Suc (Suc 0))
                 = (Inr (), ?s2, 2)"
    by (simp add: capture_loop.simps [of ?E ?r 50 2] g h head_hash_page)
  have l2: "capture_loop ?E ?r 50 1 (Some 1) ?s1 (Suc 0) = (Inr (), ?s2, 2)"
    using l3 ne by (simp add: capture_loop.simps [of ?E ?r 50 1] g s h head_hash_page)
  have l1: "capture_loop ?E ?r 50 0 None (init 1) 0 = (Inr (), ?s2, 2)"
    using l2 by (simp add: capture_loop.simps [of ?E ?r 50 0] g s h head_hash_page init_def)
  have t: "scroll_to_top ?E 0 = (Inr (), 0)"
    by (simp add: scroll_to_top_def and_then_def scroller_def)
  have b: "bring_window_to_front ?E (hwnd (init 1)) 0 = (Inr (), 0)"
    by (simp add: scroller_def)
  have q: "get_window_rect ?E (hwnd (init 1)) 0 = (Inr ?r, 0)"
    by (simp add: scroller_def window_rect_def)
  show ?thesis
    by (simp add: capture_def b q t l1 split: sum.splits)
qed

lemma stitched_pair_height:
  "\<exists>stitched. stitch_images [page 0, page step] = Inr stitched
     \<and> height stitched = 600 - find_overlap (page 0) (page step) None"
proof -
  have ne: "[page 0, page step] \<noteq> []" by simp
  have len: "length [page 0, page step] \<noteq> 1" by simp
  have wf: "list_all wf_image [page 0, page step]" by (simp add: wf_page)
  have "sum_list (map height (stitched_parts [page 0, page step]))
          = 600 - find_overlap (page 0) (page step) None"
    by (simp add: sum_heights_parts)
  then show ?thesis using stitch_images_many [OF ne len wf] by simp
qed

text \<open>
  C2, as amended. Three 100 by 300 frames cut from the document, the third equal to the
  second. When frame 2 is frame 1 shifted up by 220 rows, so that its top 80 rows repeat
  the bottom 80 rows of frame 1, the loop ends with exactly the two frames stored, the
  Overlap Locator returns 80 and the stitched height is 520. When frame 2 is frame 1
  shifted up by 80 rows, 220 rows are repeated, more than the largest candidate 140: two
  frames are stored, the Overlap Locator returns 0 and the stitched height is 600.
\<close>

theorem scroll_fixture:
  "images (fst (snd (capture (scroller (scrolled_by 220) window_rect head_hash) 50 (init 1) 0)))
     = [page 0, page 220]
   \<and> find_overlap (page 0) (page 220) None = 80
   \<and> map_sum id (map_option height)
        (fst (capture (scroller (scrolled_by 220) window_rect head_hash) 50 (init 1) 0))
     = Inr (Some 520)
   \<and> images (fst (snd (capture (scroller (scrolled_by 80) window_rect head_hash) 50 (init 1) 0)))
     = [page 0, page 80]
   \<and> find_overlap (page 0) (page 80) None = 0
   \<and> map_sum id (map_option height)
        (fst (capture (scroller (scrolled_by 80) window_rect head_hash) 50 (init 1) 0))
     = Inr (Some 600)"
proof -
  obtain a where a: "stitch_images [page 0, page 220] = Inr a" "height a = 520"
    using stitched_pair_height [of 220] by (auto simp: find_overlap_shift_220)
  obtain b where b: "stitch_images [page 0, page 80] = Inr b" "height b = 600"
    using stitched_pair_height [of 80] by (auto simp: find_overlap_shift_80)
  show ?thesis
    by (simp add: capture_scrolled a b find_overlap_shift_220 find_overlap_shift_80)
qed

text \<open>
  The fixture as the claim words it, frame 2 being frame 1 shifted up by 80 rows: the
  Overlap Locator does not return 80 and the stitched height is not 520.
\<close>

theorem shifted_by_80_counterexample:
  "images (fst (snd (capture (scroller (scrolled_by 80) window_rect head_hash) 50 (init 1) 0)))
     = [page 0, page 80]
   \<and> find_overlap (page 0) (page 80) None \<noteq> 80
   \<and> map_sum id (map_option height)
        (fst (capture (scroller (scrolled_by 80) window_rect head_hash) 50 (init 1) 0))
     \<noteq> Inr (Some 520)"
proof -
  obtain b where b: "stitch_images [page 0, page 80] = Inr b" "height b = 600"
    using stitched_pair_height [of 80] by (auto simp: find_overlap_shift_80)
  show ?thesis
    by (simp add: capture_scrolled b find_overlap_shift_80)
qed

end
